theory Spec2Isabelle
  imports Complex_Main "HOL-Library.Multiset"
begin

section \<open>The reduce task (TiledArray/reduce_task.h)\<close>

text \<open>
  The reduction operation \<open>opT\<close> is an object with five call operators. They are the
  fields of a record: \<open>op_identity\<close> is \<open>op()\<close>, \<open>op_post\<close> is \<open>op(temp)\<close>,
  \<open>op_result\<close> is \<open>op(result, other_result)\<close>, \<open>op_arg\<close> is \<open>op(result, arg)\<close> and
  \<open>op_arg2\<close> is \<open>op(result, arg1, arg2)\<close>. The operators that take \<open>result_type&\<close>
  return the new value of the result.
\<close>

record ('r, 'a) reduce_op =
  op_identity :: 'r
  op_post :: "'r \<Rightarrow> 'r"
  op_result :: "'r \<Rightarrow> 'r \<Rightarrow> 'r"
  op_arg :: "'r \<Rightarrow> 'a \<Rightarrow> 'r"
  op_arg2 :: "'r \<Rightarrow> 'a \<Rightarrow> 'a \<Rightarrow> 'r"

text \<open>
  A \<open>ReduceObject\<close>: the number that identifies the heap object (the value of
  \<open>ReduceTask::count_\<close> when it was created), the value its future(s) deliver, and
  whether \<open>callback_\<close> is non-null.
\<close>

datatype 'a reduce_object = ReduceObject (obj_id: nat) (obj_arg: 'a) (obj_callback: bool)

text \<open>What the code does to the world, in the order it does it.\<close>

datatype event =
    EvInc                \<comment> \<open>\<open>pimpl_->inc()\<close>\<close>
  | EvDec                \<comment> \<open>\<open>this->dec()\<close>\<close>
  | EvOpArg nat          \<comment> \<open>\<open>op_(*result, object->arg())\<close>\<close>
  | EvOpArg2 nat nat     \<comment> \<open>\<open>op_(*result, object1->arg(), object2->arg())\<close>\<close>
  | EvOpResult           \<comment> \<open>\<open>op_(*result, *ready_result)\<close>\<close>
  | EvCallback nat       \<comment> \<open>\<open>object->callback_->notify()\<close>\<close>
  | EvDelete nat         \<comment> \<open>\<open>delete object\<close>\<close>
  | EvTakeObject nat     \<comment> \<open>\<open>reduce\<close>: the critical section took \<open>ready_object_\<close>\<close>
  | EvTakeResult         \<comment> \<open>\<open>reduce\<close>: the critical section took \<open>ready_result_\<close>\<close>
  | EvPark               \<comment> \<open>\<open>reduce\<close>: the critical section stored \<open>result\<close> in \<open>ready_result_\<close>\<close>
  | EvSet                \<comment> \<open>\<open>result_.set(...)\<close>\<close>
  | EvNotifyDone         \<comment> \<open>\<open>callback_->notify()\<close> of the task\<close>

text \<open>
  A task that \<open>ready\<close> gave to the task queue, with the place its worker has reached.
  A worker is preempted only between two accesses to shared state: a critical section of
  \<open>lock_\<close>, a call of an operator of \<open>op_\<close>, \<open>ReduceObject::destroy\<close> and \<open>dec()\<close> are
  one step each. A frame of \<open>reduce\<close> records which function called it, since the calls
  of \<open>dec()\<close> that follow the call of \<open>reduce\<close> differ: one in
  \<open>reduce_result_object\<close>, two in \<open>reduce_object_object\<close>.
\<close>

datatype caller = In_reduce_result_object | In_reduce_object_object

fun decs_after :: "caller \<Rightarrow> nat" where
  "decs_after In_reduce_result_object = 1"
| "decs_after In_reduce_object_object = 2"

datatype ('r, 'a) frame =
    RRO_entry 'r "'a reduce_object"
      \<comment> \<open>\<open>reduce_result_object(result, object)\<close>, queued or at its first line\<close>
  | RRO_destroy 'r "'a reduce_object"
      \<comment> \<open>before \<open>ReduceObject::destroy(object)\<close>\<close>
  | ROO_entry "'a reduce_object" "'a reduce_object"
      \<comment> \<open>\<open>reduce_object_object(object1, object2)\<close>, queued or at its first line\<close>
  | ROO_destroy1 'r "'a reduce_object" "'a reduce_object"
      \<comment> \<open>before \<open>ReduceObject::destroy(object1)\<close>\<close>
  | ROO_destroy2 'r "'a reduce_object"
      \<comment> \<open>before \<open>ReduceObject::destroy(object2)\<close>\<close>
  | Reduce_head 'r caller
      \<comment> \<open>\<open>reduce(result)\<close> at \<open>while(result)\<close>, before \<open>lock_.lock()\<close>\<close>
  | Reduce_object 'r "'a reduce_object" caller
      \<comment> \<open>\<open>ready_object_\<close> taken and the lock released, before \<open>op_\<close>\<close>
  | Reduce_destroy 'r "'a reduce_object" caller
      \<comment> \<open>before \<open>ReduceObject::destroy(ready_object)\<close>\<close>
  | Reduce_dec 'r caller
      \<comment> \<open>before the \<open>this->dec()\<close> inside the loop\<close>
  | Reduce_result 'r 'r caller
      \<comment> \<open>\<open>ready_result_\<close> taken and the lock released, before \<open>op_\<close>\<close>
  | Return_decs nat
      \<comment> \<open>\<open>reduce\<close> has returned; so many calls of \<open>dec()\<close> remain (0: the task is over)\<close>

text \<open>
  \<open>ReduceTask\<close> with its \<open>ReduceTaskImpl\<close>. \<open>ndep\<close> is the dependency counter of
  \<open>madness::TaskInterface\<close> (constructed with 1, changed by \<open>inc()\<close> and \<open>dec()\<close>).
  \<open>waiting\<close> holds the \<open>ReduceObject\<close>s registered as callbacks of futures that are not
  set yet, each with its \<open>count_\<close>. \<open>tasks\<close> holds the tasks added by \<open>ready\<close>, in
  the order they were added; \<open>queued\<close> says that \<open>world_.taskq.add(pimpl_)\<close> was called.
\<close>

record ('r, 'a) reduce_task =
  ready_result :: "'r option"
  ready_object :: "'a reduce_object option"
  result :: "'r option"
  callback :: bool
  ndep :: int
  pimpl :: bool
  count_args :: nat   \<comment> \<open>\<open>ReduceTask::count_\<close>, which \<open>count()\<close> returns\<close>
  queued :: bool
  waiting :: "('a reduce_object \<times> nat) list"
  tasks :: "('r, 'a) frame list"
  trace :: "event list"

datatype fault =
    AssertFailed   \<comment> \<open>a \<open>MADNESS_ASSERT\<close> failed\<close>
  | NotEnabled     \<comment> \<open>the schedule asks for a step that cannot happen in this state\<close>

text \<open>\<open>ReduceTask(world, op, callback)\<close> with \<open>ReduceTaskImpl(world, op, callback)\<close>.\<close>

definition ReduceTask :: "('r, 'a) reduce_op \<Rightarrow> bool \<Rightarrow> ('r, 'a) reduce_task" where
  "ReduceTask opr cb =
     \<lparr>ready_result = Some (op_identity opr), ready_object = None, result = None,
      callback = cb, ndep = 1, pimpl = True, count_args = 0, queued = False,
      waiting = [], tasks = [], trace = []\<rparr>"

definition emit :: "event list \<Rightarrow> ('r, 'a) reduce_task \<Rightarrow> ('r, 'a) reduce_task" where
  "emit es s = s\<lparr>trace := trace s @ es\<rparr>"

definition inc :: "('r, 'a) reduce_task \<Rightarrow> ('r, 'a) reduce_task" where
  "inc s = emit [EvInc] (s\<lparr>ndep := ndep s + 1\<rparr>)"

definition dec :: "('r, 'a) reduce_task \<Rightarrow> ('r, 'a) reduce_task" where
  "dec s = emit [EvDec] (s\<lparr>ndep := ndep s - 1\<rparr>)"

text \<open>\<open>ReduceObject::destroy\<close>: the callback, if there is one, then \<open>delete\<close>.\<close>

definition destroy_events :: "'a reduce_object \<Rightarrow> event list" where
  "destroy_events object =
     (if obj_callback object then [EvCallback (obj_id object)] else [])
     @ [EvDelete (obj_id object)]"

definition destroy :: "'a reduce_object \<Rightarrow> ('r, 'a) reduce_task \<Rightarrow> ('r, 'a) reduce_task" where
  "destroy object s = emit (destroy_events object) s"

text \<open>\<open>ReduceTaskImpl::ready\<close>: one critical section, then possibly \<open>taskq.add\<close>.\<close>

definition ready :: "'a reduce_object \<Rightarrow> ('r, 'a) reduce_task \<Rightarrow> ('r, 'a) reduce_task" where
  "ready object s =
     (case ready_result s of
        Some r \<Rightarrow> s\<lparr>ready_result := None, tasks := tasks s @ [RRO_entry r object]\<rparr>
      | None \<Rightarrow>
          (case ready_object s of
             Some ro \<Rightarrow> s\<lparr>ready_object := None, tasks := tasks s @ [ROO_entry object ro]\<rparr>
           | None \<Rightarrow> s\<lparr>ready_object := Some object\<rparr>))"

text \<open>
  One step of a worker in \<open>reduce_result_object\<close>, \<open>reduce_object_object\<close> or
  \<open>reduce\<close>: the frame it reaches and the shared state it leaves.
\<close>

fun work :: "('r, 'a) reduce_op \<Rightarrow> ('r, 'a) frame \<Rightarrow> ('r, 'a) reduce_task
    \<Rightarrow> ('r, 'a) frame \<times> ('r, 'a) reduce_task" where
  "work opr (RRO_entry r object) s =
     (RRO_destroy (op_arg opr r (obj_arg object)) object, emit [EvOpArg (obj_id object)] s)"
| "work opr (RRO_destroy r object) s = (Reduce_head r In_reduce_result_object, destroy object s)"
| "work opr (ROO_entry object1 object2) s =
     (ROO_destroy1 (op_arg2 opr (op_identity opr) (obj_arg object1) (obj_arg object2))
        object1 object2,
      emit [EvOpArg2 (obj_id object1) (obj_id object2)] s)"
| "work opr (ROO_destroy1 r object1 object2) s = (ROO_destroy2 r object2, destroy object1 s)"
| "work opr (ROO_destroy2 r object2) s = (Reduce_head r In_reduce_object_object, destroy object2 s)"
| "work opr (Reduce_head r c) s =
     (case ready_object s of
        Some ro \<Rightarrow>
          (Reduce_object r ro c, emit [EvTakeObject (obj_id ro)] (s\<lparr>ready_object := None\<rparr>))
      | None \<Rightarrow>
          (case ready_result s of
             Some rr \<Rightarrow> (Reduce_result r rr c, emit [EvTakeResult] (s\<lparr>ready_result := None\<rparr>))
           | None \<Rightarrow> (Return_decs (decs_after c), emit [EvPark] (s\<lparr>ready_result := Some r\<rparr>))))"
| "work opr (Reduce_object r ro c) s =
     (Reduce_destroy (op_arg opr r (obj_arg ro)) ro c, emit [EvOpArg (obj_id ro)] s)"
| "work opr (Reduce_destroy r ro c) s = (Reduce_dec r c, destroy ro s)"
| "work opr (Reduce_dec r c) s = (Reduce_head r c, dec s)"
| "work opr (Reduce_result r rr c) s = (Reduce_head (op_result opr r rr) c, emit [EvOpResult] s)"
| "work opr (Return_decs k) s = (Return_decs (k - 1), dec s)"

text \<open>\<open>ReduceTaskImpl::run\<close>.\<close>

definition run :: "('r, 'a) reduce_op \<Rightarrow> ('r, 'a) reduce_task \<Rightarrow> fault + ('r, 'a) reduce_task" where
  "run opr s =
     (case ready_result s of
        None \<Rightarrow> Inl AssertFailed
      | Some r \<Rightarrow>
          Inr (emit (EvSet # (if callback s then [EvNotifyDone] else []))
                 (s\<lparr>result := Some (op_post opr r)\<rparr>)))"

text \<open>
  \<open>ReduceTask::add(arg, callback)\<close>. \<open>unset\<close> is the number of futures of \<open>arg\<close> that
  are not set when the \<open>ReduceObject\<close> registers itself: with none, \<open>register_callbacks\<close>
  calls \<open>parent_->ready(this)\<close> at once; otherwise the object waits for so many calls of
  \<open>notify()\<close>.
\<close>

definition add :: "'a \<Rightarrow> bool \<Rightarrow> nat \<Rightarrow> ('r, 'a) reduce_task \<Rightarrow> fault + ('r, 'a) reduce_task" where
  "add a cb unset s =
     (if \<not> pimpl s then Inl AssertFailed
      else
        let s1 = inc s;
            object = ReduceObject (count_args s) a cb;
            s2 = (if unset = 0 then ready object s1
                  else s1\<lparr>waiting := waiting s1 @ [(object, unset)]\<rparr>)
        in Inr (s2\<lparr>count_args := count_args s2 + 1\<rparr>))"

text \<open>\<open>ReduceTask::submit\<close>. The future it returns is the field \<open>result\<close>.\<close>

definition submit :: "('r, 'a) reduce_op \<Rightarrow> ('r, 'a) reduce_task \<Rightarrow> fault + ('r, 'a) reduce_task" where
  "submit opr s =
     (if \<not> pimpl s then Inl AssertFailed
      else if count_args s = 0 then
        (case run opr (dec s) of
           Inl e \<Rightarrow> Inl e
         | Inr s' \<Rightarrow> Inr (s'\<lparr>pimpl := False\<rparr>))
      else Inr ((dec (s\<lparr>queued := True\<rparr>))\<lparr>pimpl := False\<rparr>))"

text \<open>
  \<open>ReduceObject::notify\<close> of the waiting object at the place \<open>n\<close> of \<open>waiting\<close>:
  \<open>if((--count_) == 0) parent_->ready(this)\<close>. The \<open>count_\<close> of a waiting object
  is at least 1.
\<close>

definition notify :: "nat \<Rightarrow> ('r, 'a) reduce_task \<Rightarrow> ('r, 'a) reduce_task" where
  "notify n s =
     (case waiting s ! n of
        (object, c) \<Rightarrow>
          if c - 1 = 0 then ready object (s\<lparr>waiting := take n (waiting s) @ drop (Suc n) (waiting s)\<rparr>)
          else s\<lparr>waiting := (waiting s)[n := (object, c - 1)]\<rparr>)"

text \<open>
  What can happen next: a call of the user (\<open>Add\<close>, \<open>Submit\<close>), a future of the
  waiting object \<open>n\<close> that becomes set (\<open>Notify\<close>), a worker that takes one step in the
  task \<open>n\<close> (\<open>Work\<close>), and the task queue running the \<open>ReduceTaskImpl\<close> itself once it
  is queued and its dependency counter is 0 (\<open>Run\<close>).
\<close>

datatype 'a action =
    Add 'a bool nat
  | Submit
  | Notify nat
  | Work nat
  | Run

fun step :: "('r, 'a) reduce_op \<Rightarrow> 'a action \<Rightarrow> ('r, 'a) reduce_task
    \<Rightarrow> fault + ('r, 'a) reduce_task" where
  "step opr (Add a cb unset) s = add a cb unset s"
| "step opr Submit s = submit opr s"
| "step opr (Notify n) s = (if n < length (waiting s) then Inr (notify n s) else Inl NotEnabled)"
| "step opr (Work n) s =
     (if n < length (tasks s) \<and> tasks s ! n \<noteq> Return_decs 0 then
        (case work opr (tasks s ! n) s of
           (f, s') \<Rightarrow> Inr (s'\<lparr>tasks := (tasks s')[n := f]\<rparr>))
      else Inl NotEnabled)"
| "step opr Run s =
     (if queued s \<and> ndep s = 0 \<and> result s = None then run opr s else Inl NotEnabled)"

fun exec :: "('r, 'a) reduce_op \<Rightarrow> 'a action list \<Rightarrow> ('r, 'a) reduce_task
    \<Rightarrow> fault + ('r, 'a) reduce_task" where
  "exec opr [] s = Inr s"
| "exec opr (a # as) s = (case step opr a s of Inl e \<Rightarrow> Inl e | Inr s' \<Rightarrow> exec opr as s')"

text \<open>
  Modelled from the spec: the operation of its scenario 1, "op = integer sum". The
  values are unbounded integers.
\<close>

definition sum_op :: "(int, int) reduce_op" where
  "sum_op = \<lparr>op_identity = 0, op_post = (\<lambda>temp. temp), op_result = (\<lambda>r other. r + other),
             op_arg = (\<lambda>r a. r + a), op_arg2 = (\<lambda>r a1 a2. r + a1 + a2)\<rparr>"

subsection \<open>Measures of a state of the reduce task\<close>

text \<open>The calls of \<open>dec()\<close> that a task still makes.\<close>

fun owed :: "('r, 'a) frame \<Rightarrow> int" where
  "owed (RRO_entry r object) = 1"
| "owed (RRO_destroy r object) = 1"
| "owed (ROO_entry object1 object2) = 2"
| "owed (ROO_destroy1 r object1 object2) = 2"
| "owed (ROO_destroy2 r object2) = 2"
| "owed (Reduce_head r c) = int (decs_after c)"
| "owed (Reduce_object r ro c) = int (decs_after c) + 1"
| "owed (Reduce_destroy r ro c) = int (decs_after c) + 1"
| "owed (Reduce_dec r c) = int (decs_after c) + 1"
| "owed (Reduce_result r rr c) = int (decs_after c)"
| "owed (Return_decs k) = int k"

text \<open>Whether a task holds a result object of its own.\<close>

fun holds :: "('r, 'a) frame \<Rightarrow> nat" where
  "holds (ROO_entry object1 object2) = 0"
| "holds (Return_decs k) = 0"
| "holds _ = 1"

text \<open>The objects in the hands of a task: not yet reduced, and not yet destroyed.\<close>

fun to_reduce :: "('r, 'a) frame \<Rightarrow> nat multiset" where
  "to_reduce (RRO_entry r object) = {#obj_id object#}"
| "to_reduce (ROO_entry object1 object2) = {#obj_id object1, obj_id object2#}"
| "to_reduce (Reduce_object r ro c) = {#obj_id ro#}"
| "to_reduce _ = {#}"

fun to_destroy :: "('r, 'a) frame \<Rightarrow> nat multiset" where
  "to_destroy (RRO_entry r object) = {#obj_id object#}"
| "to_destroy (RRO_destroy r object) = {#obj_id object#}"
| "to_destroy (ROO_entry object1 object2) = {#obj_id object1, obj_id object2#}"
| "to_destroy (ROO_destroy1 r object1 object2) = {#obj_id object1, obj_id object2#}"
| "to_destroy (ROO_destroy2 r object2) = {#obj_id object2#}"
| "to_destroy (Reduce_object r ro c) = {#obj_id ro#}"
| "to_destroy (Reduce_destroy r ro c) = {#obj_id ro#}"
| "to_destroy _ = {#}"

text \<open>The objects that wait for a future or are parked in \<open>ready_object_\<close>.\<close>

definition parked :: "('r, 'a) reduce_task \<Rightarrow> nat multiset" where
  "parked s =
     mset (map (\<lambda>w. obj_id (fst w)) (waiting s))
     + (case ready_object s of None \<Rightarrow> {#} | Some ro \<Rightarrow> {#obj_id ro#})"

text \<open>The objects that the events of a trace reduce, and those that they delete.\<close>

fun reduced :: "event \<Rightarrow> nat multiset" where
  "reduced (EvOpArg i) = {#i#}"
| "reduced (EvOpArg2 i j) = {#i, j#}"
| "reduced _ = {#}"

fun deleted :: "event \<Rightarrow> nat multiset" where
  "deleted (EvDelete i) = {#i#}"
| "deleted _ = {#}"

text \<open>
  The invariant of the reduce task: the dependency counter counts the sentinel of
  \<open>submit\<close>, the objects that are not ready or parked, and the calls of \<open>dec()\<close> the
  tasks still make; some result object exists; \<open>ready_result_\<close> and \<open>ready_object_\<close>
  are not both set; every object added so far is reduced or still to be reduced,
  destroyed or still to be destroyed, by exactly one holder; there are no more tasks
  and objects at rest than calls of \<open>add\<close>; the task is given to the queue by
  \<open>submit\<close> only, and has run only with the counter at 0.
\<close>

definition task_inv :: "('r, 'a) reduce_task \<Rightarrow> bool" where
  "task_inv s =
     (ndep s = (if pimpl s then 1 else 0) + int (length (waiting s))
               + (case ready_object s of None \<Rightarrow> 0 | Some ro \<Rightarrow> 1)
               + sum_list (map owed (tasks s))
      \<and> (ready_result s \<noteq> None \<or> 1 \<le> sum_list (map holds (tasks s)))
      \<and> (ready_result s = None \<or> ready_object s = None)
      \<and> sum_list (map reduced (trace s)) + parked s + sum_list (map to_reduce (tasks s))
          = mset [0..<count_args s]
      \<and> sum_list (map deleted (trace s)) + parked s + sum_list (map to_destroy (tasks s))
          = mset [0..<count_args s]
      \<and> length (tasks s) + length (waiting s)
          + (case ready_object s of None \<Rightarrow> 0 | Some ro \<Rightarrow> 1) \<le> count_args s
      \<and> (pimpl s \<or> queued s \<or> result s \<noteq> None)
      \<and> (result s = None \<or> (ndep s = 0 \<and> \<not> pimpl s)))"

text \<open>
  The sum that a state carries for \<open>sum_op\<close>: what \<open>ready_result_\<close> holds, the
  arguments of the objects that wait or are parked, and what the tasks hold.
\<close>

fun held :: "(int, int) frame \<Rightarrow> int" where
  "held (RRO_entry r object) = r + obj_arg object"
| "held (RRO_destroy r object) = r"
| "held (ROO_entry object1 object2) = obj_arg object1 + obj_arg object2"
| "held (ROO_destroy1 r object1 object2) = r"
| "held (ROO_destroy2 r object2) = r"
| "held (Reduce_head r c) = r"
| "held (Reduce_object r ro c) = r + obj_arg ro"
| "held (Reduce_destroy r ro c) = r"
| "held (Reduce_dec r c) = r"
| "held (Reduce_result r rr c) = r + rr"
| "held (Return_decs k) = 0"

definition carried :: "(int, int) reduce_task \<Rightarrow> int" where
  "carried s =
     (case ready_result s of None \<Rightarrow> 0 | Some r \<Rightarrow> r)
     + sum_list (map (\<lambda>w. obj_arg (fst w)) (waiting s))
     + (case ready_object s of None \<Rightarrow> 0 | Some ro \<Rightarrow> obj_arg ro)
     + sum_list (map held (tasks s))"

text \<open>The sum of the values that the calls of \<open>add\<close> in a schedule add.\<close>

fun added :: "int action list \<Rightarrow> int" where
  "added [] = 0"
| "added (Add a cb unset # as) = a + added as"
| "added (_ # as) = added as"

text \<open>
  The invariant of the sum reducer: the state carries the sum of the values added so
  far, and the result future is not set or holds that sum.
\<close>

definition sum_inv :: "int \<Rightarrow> (int, int) reduce_task \<Rightarrow> bool" where
  "sum_inv tot s = (carried s = tot \<and> (result s = None \<or> result s = Some tot))"








text \<open>
  The calls of the user in a schedule: \<open>Some a\<close> for \<open>add\<close> of a future of \<open>a\<close> (one
  future, set or not set at the call), \<open>None\<close> for \<open>submit\<close>.
\<close>

fun calls :: "'a action list \<Rightarrow> 'a option list" where
  "calls [] = []"
| "calls (Add a cb unset # as) = Some a # calls as"
| "calls (Submit # as) = None # calls as"
| "calls (_ # as) = calls as"

text \<open>
  A bound on the steps that remain: each step that is not a call of \<open>add\<close> lowers it.
\<close>

fun frame_steps :: "('r, 'a) frame \<Rightarrow> nat" where
  "frame_steps (RRO_entry r object) = 6"
| "frame_steps (RRO_destroy r object) = 5"
| "frame_steps (ROO_entry object1 object2) = 8"
| "frame_steps (ROO_destroy1 r object1 object2) = 7"
| "frame_steps (ROO_destroy2 r object2) = 6"
| "frame_steps (Reduce_head r c) = decs_after c + 3"
| "frame_steps (Reduce_object r ro c) = decs_after c + 6"
| "frame_steps (Reduce_destroy r ro c) = decs_after c + 5"
| "frame_steps (Reduce_dec r c) = decs_after c + 4"
| "frame_steps (Reduce_result r rr c) = decs_after c + 4"
| "frame_steps (Return_decs k) = k"

definition steps_left :: "('r, 'a) reduce_task \<Rightarrow> nat" where
  "steps_left s =
     (case ready_result s of None \<Rightarrow> 0 | Some r \<Rightarrow> 2)
     + (case ready_object s of None \<Rightarrow> 0 | Some ro \<Rightarrow> 4)
     + sum_list (map (\<lambda>w. snd w + 5) (waiting s))
     + sum_list (map frame_steps (tasks s))
     + (if pimpl s then 1 else 0)
     + (if result s = None then 1 else 0)"

fun unset_futures :: "'a action list \<Rightarrow> nat" where
  "unset_futures [] = 0"
| "unset_futures (Add a cb unset # as) = unset + unset_futures as"
| "unset_futures (_ # as) = unset_futures as"

section \<open>The sparse shape (sparse_shape.h)\<close>

text \<open>
  The norm type \<open>T\<close> is an ordered field \<open>'a\<close>: sums, products, quotients and
  comparisons are exact, the rounding of a floating-point type is not modelled.
  \<open>std::sqrt\<close> is a parameter \<open>sqrtf\<close> of the operations that call it.
\<close>

datatype ta_error =
    PreconditionViolated  \<comment> \<open>a \<open>TA_ASSERT\<close> failed\<close>
  | NoReturn              \<comment> \<open>a recursion that does not end\<close>

subsection \<open>What the shape takes from the rest of the library\<close>

text \<open>
  Modelled from the spec: \<open>Range\<close>, the tile grid (spec 3, "\<open>tile_norms.range\<close> matches
  the product of \<open>size_vectors\<close> lengths"), as the list of its extents, one for each
  dimension; the ordinals of its indices run in row-major order.
\<close>

type_synonym range_type = "nat list"

fun ord :: "range_type \<Rightarrow> nat list \<Rightarrow> nat" where
  "ord (n # ns) (i # is) = i * prod_list ns + ord ns is"
| "ord _ _ = 0"

fun indices :: "range_type \<Rightarrow> nat list list" where
  "indices [] = [[]]"
| "indices (n # ns) = concat (map (\<lambda>i. map ((#) i) (indices ns)) [0..<n])"

text \<open>
  Modelled from the spec: \<open>Tensor\<close>, "a dense multi-dimensional tensor" (spec 3), as
  its range and its elements in the order of their ordinals. A default-constructed
  tensor has no data: where the source holds a \<open>Tensor\<close> the model holds a
  \<open>tensor option\<close>, and \<open>empty()\<close> is \<open>None\<close>.
\<close>

record 'a tensor =
  extent :: range_type
  elems :: "'a list"

text \<open>
  Modelled from the spec: \<open>Permutation\<close>, a "bijection p on {0, ..., dim-1}" (spec 6),
  as the list of the images; \<open>perm[i]\<close> is \<open>perm ! i\<close>.
\<close>

type_synonym permutation = "nat list"

definition valid_perm :: "permutation \<Rightarrow> nat \<Rightarrow> bool" where
  "valid_perm perm n = (length perm = n \<and> distinct perm \<and> list_all (\<lambda>x. x < n) perm)"


text \<open>
  Modelled from the spec: a permutation applied to a range and to a tensor ("tile_norms
  permuted by p ... \<open>result[p[d]] = this[d]\<close>", spec 4.4). The extent \<open>d\<close> of the
  argument is the extent \<open>p[d]\<close> of the result, and the element at the index \<open>i\<close> of
  the argument is the element of the result at the index \<open>j\<close> with \<open>j[p[d]] = i[d]\<close>.
\<close>

definition permute_range :: "permutation \<Rightarrow> range_type \<Rightarrow> range_type" where
  "permute_range perm r =
     fold (\<lambda>i res. res[perm ! i := r ! i]) [0..<length r] (replicate (length r) 0)"

definition unpermute_index :: "permutation \<Rightarrow> nat list \<Rightarrow> nat list" where
  "unpermute_index perm j = map (\<lambda>d. j ! (perm ! d)) [0..<length perm]"

definition t_permute :: "permutation \<Rightarrow> 'a tensor \<Rightarrow> ta_error + 'a tensor" where
  "t_permute perm t =
     (if \<not> valid_perm perm (length (extent t)) then Inl PreconditionViolated
      else Inr \<lparr>extent = permute_range perm (extent t),
                elems = map (\<lambda>j. elems t ! ord (extent t) (unpermute_index perm j))
                          (indices (permute_range perm (extent t)))\<rparr>)"

text \<open>
  Modelled from the spec: the elementwise operations of \<open>Tensor\<close> (spec 6: \<open>unary\<close>,
  \<open>binary\<close>, \<open>add\<close>, \<open>mult\<close>, \<open>inplace_unary\<close>). An empty argument or "mismatched
  ranges are a precondition violation" (spec 4.4). The variants with a permutation
  permute the result.
\<close>

definition t_unary :: "('a \<Rightarrow> 'a) \<Rightarrow> 'a tensor \<Rightarrow> 'a tensor" where
  "t_unary f t = t\<lparr>elems := map f (elems t)\<rparr>"

definition t_binary :: "('a \<Rightarrow> 'a \<Rightarrow> 'a) \<Rightarrow> 'a tensor \<Rightarrow> 'a tensor option
    \<Rightarrow> ta_error + 'a tensor" where
  "t_binary f t other =
     (case other of
        None \<Rightarrow> Inl PreconditionViolated
      | Some u \<Rightarrow>
          if extent u \<noteq> extent t then Inl PreconditionViolated
          else Inr (t\<lparr>elems := map2 f (elems t) (elems u)\<rparr>))"

definition t_unary_perm :: "('a \<Rightarrow> 'a) \<Rightarrow> permutation \<Rightarrow> 'a tensor \<Rightarrow> ta_error + 'a tensor" where
  "t_unary_perm f perm t = t_permute perm (t_unary f t)"

definition t_binary_perm :: "('a \<Rightarrow> 'a \<Rightarrow> 'a) \<Rightarrow> permutation \<Rightarrow> 'a tensor
    \<Rightarrow> 'a tensor option \<Rightarrow> ta_error + 'a tensor" where
  "t_binary_perm f perm t other =
     (case t_binary f t other of Inl e \<Rightarrow> Inl e | Inr r \<Rightarrow> t_permute perm r)"

text \<open>
  Modelled from the spec: the vector kernels of \<open>math\<close>, which the source calls on raw
  data pointers. \<open>binary_vector_op(n, arg, result, op)\<close> updates the first \<open>n\<close>
  elements of \<open>result\<close> in place; \<open>outer(m, n, left, right, a, op)\<close> updates the
  element \<open>i * n + j\<close> of \<open>a\<close> with \<open>left[i]\<close> and \<open>right[j]\<close>; \<open>outer_fill(m, n,
  left, right, result, op)\<close> stores \<open>op(left[i], right[j])\<close> there ("a direct
  elementwise outer product", spec 4.4).
\<close>

definition binary_vector_op :: "nat \<Rightarrow> ('a \<Rightarrow> 'a \<Rightarrow> 'a) \<Rightarrow> 'a list \<Rightarrow> 'a list \<Rightarrow> 'a list" where
  "binary_vector_op n f arg res = map (\<lambda>i. f (res ! i) (arg ! i)) [0..<n] @ drop n res"

definition outer :: "nat \<Rightarrow> nat \<Rightarrow> ('a \<Rightarrow> 'a \<Rightarrow> 'a \<Rightarrow> 'a) \<Rightarrow> 'a list \<Rightarrow> 'a list \<Rightarrow> 'a list
    \<Rightarrow> 'a list" where
  "outer m n f left right a =
     concat (map (\<lambda>i. map (\<lambda>j. f (a ! (i * n + j)) (left ! i) (right ! j)) [0..<n]) [0..<m])
     @ drop (m * n) a"

definition outer_fill :: "nat \<Rightarrow> nat \<Rightarrow> ('a \<Rightarrow> 'a \<Rightarrow> 'a) \<Rightarrow> 'a list \<Rightarrow> 'a list \<Rightarrow> 'a list" where
  "outer_fill m n f left right =
     concat (map (\<lambda>i. map (\<lambda>j. f (left ! i) (right ! j)) [0..<n]) [0..<m])"

text \<open>
  Modelled from the spec: \<open>TiledRange\<close>, for each dimension the list of its tiles, a
  tile being the pair of its first element and the element after its last one.
\<close>

type_synonym tiled_range = "(nat \<times> nat) list list"

definition tiles :: "tiled_range \<Rightarrow> range_type" where
  "tiles trange = map length trange"

text \<open>
  Modelled from the spec: \<open>math::GemmHelper\<close>, the "consumed struct" of spec 6, as the
  record of what its accessors return; \<open>compute_matrix_sizes\<close> and
  \<open>make_result_range\<close> follow spec 4.4 ("M, N, K" are the products of the outer
  extents of the left, the outer extents of the right, and the contracted extents; the
  result has the outer dimensions of the left, then those of the right).
\<close>

record gemm_helper =
  result_rank :: nat
  left_outer_begin :: nat
  left_outer_end :: nat
  right_outer_begin :: nat
  right_outer_end :: nat
  left_inner_begin :: nat
  left_inner_end :: nat

definition compute_matrix_sizes :: "gemm_helper \<Rightarrow> range_type \<Rightarrow> range_type \<Rightarrow> nat \<times> nat \<times> nat" where
  "compute_matrix_sizes h left right =
     (prod_list (map ((!) left) [left_outer_begin h..<left_outer_end h]),
      prod_list (map ((!) right) [right_outer_begin h..<right_outer_end h]),
      prod_list (map ((!) left) [left_inner_begin h..<left_inner_end h]))"

definition make_result_range :: "gemm_helper \<Rightarrow> range_type \<Rightarrow> range_type \<Rightarrow> range_type" where
  "make_result_range h left right =
     map ((!) left) [left_outer_begin h..<left_outer_end h]
     @ map ((!) right) [right_outer_begin h..<right_outer_end h]"

text \<open>
  Modelled from the spec: \<open>Tensor::gemm\<close>, "\<open>result_norms = \<alpha> \<sqdot> (left_scaled \<sqdot>
  right_scaled)\<close> ... producing an (M, N) matrix" (spec 4.4, step 3), for a left
  argument stored as \<open>M\<close> rows of \<open>K\<close> and a right argument stored as \<open>K\<close> rows of
  \<open>N\<close>, which is how \<open>SparseShape::gemm\<close> scales them.
\<close>

definition t_gemm :: "gemm_helper \<Rightarrow> 'a::linordered_field \<Rightarrow> 'a tensor \<Rightarrow> 'a tensor \<Rightarrow> 'a tensor" where
  "t_gemm h factor left right =
     (case compute_matrix_sizes h (extent left) (extent right) of
        (M, N, K) \<Rightarrow>
          \<lparr>extent = make_result_range h (extent left) (extent right),
           elems = concat (map (\<lambda>m. map (\<lambda>n.
                      factor * sum_list (map (\<lambda>k. elems left ! (m * K + k) * elems right ! (k * N + n))
                                          [0..<K]))
                    [0..<N]) [0..<M])\<rparr>)"

subsection \<open>The class \<open>SparseShape\<close>\<close>

text \<open>
  \<open>tile_norms_\<close> and \<open>size_vectors_\<close>; a null \<open>size_vectors_\<close> is the empty list.
  The static member \<open>threshold_\<close> is the field of a record of its own, and every
  operation that reads it takes its value \<open>thr\<close> as its first argument.
\<close>

record 'a sparse_shape =
  tile_norms :: "'a tensor option"
  size_vectors :: "'a list list"

record 'a sparse_shape_static =
  threshold_value :: 'a

text \<open>\<open>static value_type threshold()\<close> and \<open>static void threshold(const value_type thresh)\<close>.\<close>

definition threshold :: "'a sparse_shape_static \<Rightarrow> 'a" where
  "threshold st = threshold_value st"

definition threshold_set :: "'a \<Rightarrow> 'a sparse_shape_static \<Rightarrow> ta_error + 'a sparse_shape_static" where
  "threshold_set thresh st = Inr (st\<lparr>threshold_value := thresh\<rparr>)"

text \<open>The test \<open>if(norm < threshold) norm = 0\<close>, which the operations repeat.\<close>

definition hard_zero :: "'a::linordered_field \<Rightarrow> 'a \<Rightarrow> 'a" where
  "hard_zero thr v = (if v < thr then 0 else v)"

text \<open>
  \<open>recursive_outer_product(size_vectors, dim, op)\<close>. \<open>size_vectors + middle\<close> is
  \<open>drop middle size_vectors\<close>. With \<open>dim = 0\<close> the source calls itself with \<open>dim = 0\<close>
  again, without end: the model returns \<open>None\<close> there.
\<close>

function recursive_outer_product :: "'a::linordered_field list list \<Rightarrow> nat
    \<Rightarrow> ('a list \<Rightarrow> 'a list) \<Rightarrow> 'a list option" where
  "recursive_outer_product svs d opv =
     (if d = 0 then None
      else if d = 1 then Some (opv (svs ! 0))
      else
        (case recursive_outer_product svs (d div 2 + d mod 2) opv of
           None \<Rightarrow> None
         | Some left \<Rightarrow>
             (case recursive_outer_product (drop (d div 2 + d mod 2) svs)
                     (d - (d div 2 + d mod 2)) opv of
                None \<Rightarrow> None
              | Some right \<Rightarrow>
                  Some (outer_fill (length left) (length right) (\<lambda>l r. l * r) left right))))"
  by pat_completeness auto
termination
  by (relation "measure (\<lambda>(svs, d, opv). d)") (auto, presburger+)

text \<open>\<open>normalize()\<close>, on the norms and the size vectors of the shape under construction.\<close>

definition normalize :: "'a::linordered_field \<Rightarrow> 'a tensor \<Rightarrow> 'a list list \<Rightarrow> ta_error + 'a tensor" where
  "normalize thr t svs =
     (if length (extent t) = 1 then
        (if list_ex (\<lambda>nrm. nrm < 0) (take (length (svs ! 0)) (elems t))
         then Inl PreconditionViolated
         else Inr (t\<lparr>elems := binary_vector_op (length (svs ! 0))
                      (\<lambda>nrm sz. hard_zero thr (nrm / sz)) (svs ! 0) (elems t)\<rparr>))
      else
        (case recursive_outer_product svs (length (extent t) div 2 + length (extent t) mod 2)
                (map (\<lambda>sz. 1 / sz)) of
           None \<Rightarrow> Inl NoReturn
         | Some left \<Rightarrow>
             (case recursive_outer_product
                     (drop (length (extent t) div 2 + length (extent t) mod 2) svs)
                     (length (extent t) - (length (extent t) div 2 + length (extent t) mod 2))
                     (map (\<lambda>sz. 1 / sz)) of
                None \<Rightarrow> Inl NoReturn
              | Some right \<Rightarrow>
                  if list_ex (\<lambda>nrm. nrm < 0) (take (length left * length right) (elems t))
                  then Inl PreconditionViolated
                  else Inr (t\<lparr>elems := outer (length left) (length right)
                               (\<lambda>nrm x y. hard_zero thr (nrm * (x * y))) left right (elems t)\<rparr>))))"

text \<open>\<open>initialize_size_vectors(trange)\<close>.\<close>

definition initialize_size_vectors :: "tiled_range \<Rightarrow> 'a::linordered_field list list" where
  "initialize_size_vectors trange = map (map (\<lambda>tile. of_nat (snd tile - fst tile))) trange"

text \<open>\<open>perm_size_vectors(perm)\<close>: \<open>n\<close> default-constructed vectors, then the loop.\<close>

definition perm_size_vectors :: "permutation \<Rightarrow> nat \<Rightarrow> 'a list list \<Rightarrow> 'a list list" where
  "perm_size_vectors perm n svs =
     fold (\<lambda>i res. res[perm ! i := svs ! i]) [0..<n] (replicate n [])"

text \<open>The default constructor \<open>SparseShape()\<close>.\<close>

definition SparseShape_default :: "'a sparse_shape" where
  "SparseShape_default = \<lparr>tile_norms = None, size_vectors = []\<rparr>"

text \<open>The constructor \<open>SparseShape(tile_norms, trange)\<close>, which normalizes.\<close>

definition SparseShape :: "'a::linordered_field \<Rightarrow> 'a tensor option \<Rightarrow> tiled_range
    \<Rightarrow> ta_error + 'a sparse_shape" where
  "SparseShape thr norms trange =
     (case norms of
        None \<Rightarrow> Inl PreconditionViolated
      | Some t \<Rightarrow>
          if extent t \<noteq> tiles trange then Inl PreconditionViolated
          else
            (case normalize thr t (initialize_size_vectors trange) of
               Inl e \<Rightarrow> Inl e
             | Inr t' \<Rightarrow>
                 Inr \<lparr>tile_norms = Some t', size_vectors = initialize_size_vectors trange\<rparr>))"

text \<open>
  The queries. A query returns \<open>Inl\<close> where a \<open>TA_ASSERT\<close> of its body fails.
  \<open>is_zero\<close> and \<open>operator[]\<close> take the ordinal of the tile.
\<close>

definition validate :: "range_type \<Rightarrow> 'a sparse_shape \<Rightarrow> ta_error + bool" where
  "validate r s =
     (case tile_norms s of
        None \<Rightarrow> Inr False
      | Some t \<Rightarrow> Inr (r = extent t))"

definition is_zero :: "'a::linordered_field \<Rightarrow> nat \<Rightarrow> 'a sparse_shape \<Rightarrow> ta_error + bool" where
  "is_zero thr i s =
     (case tile_norms s of
        None \<Rightarrow> Inl PreconditionViolated
      | Some t \<Rightarrow> Inr (elems t ! i < thr))"

definition norm_at :: "nat \<Rightarrow> 'a sparse_shape \<Rightarrow> ta_error + 'a" where
  "norm_at i s =
     (case tile_norms s of
        None \<Rightarrow> Inl PreconditionViolated
      | Some t \<Rightarrow> Inr (elems t ! i))"

definition data :: "'a sparse_shape \<Rightarrow> ta_error + 'a tensor option" where
  "data s = Inr (tile_norms s)"

definition empty :: "'a sparse_shape \<Rightarrow> ta_error + bool" where
  "empty s = Inr (tile_norms s = None)"

text \<open>
  \<open>perm(perm)\<close>. It has no \<open>TA_ASSERT\<close> of its own: on an empty shape the failure
  is that of \<open>Tensor::permute\<close> on a tensor without data.
\<close>

definition perm :: "permutation \<Rightarrow> 'a sparse_shape \<Rightarrow> ta_error + 'a sparse_shape" where
  "perm p s =
     (case tile_norms s of
        None \<Rightarrow> Inl PreconditionViolated
      | Some t \<Rightarrow>
          (case t_permute p t of
             Inl e \<Rightarrow> Inl e
           | Inr t' \<Rightarrow>
               Inr \<lparr>tile_norms = Some t',
                    size_vectors = perm_size_vectors p (length (extent t)) (size_vectors s)\<rparr>))"

text \<open>\<open>scale(factor)\<close> and \<open>scale(factor, perm)\<close>.\<close>

definition scale :: "'a::linordered_field \<Rightarrow> 'a \<Rightarrow> 'a sparse_shape \<Rightarrow> ta_error + 'a sparse_shape" where
  "scale thr factor s =
     (case tile_norms s of
        None \<Rightarrow> Inl PreconditionViolated
      | Some t \<Rightarrow>
          Inr \<lparr>tile_norms = Some (t_unary (\<lambda>v. hard_zero thr (v * \<bar>factor\<bar>)) t),
               size_vectors = size_vectors s\<rparr>)"

definition scale_perm :: "'a::linordered_field \<Rightarrow> 'a \<Rightarrow> permutation \<Rightarrow> 'a sparse_shape
    \<Rightarrow> ta_error + 'a sparse_shape" where
  "scale_perm thr factor p s =
     (case tile_norms s of
        None \<Rightarrow> Inl PreconditionViolated
      | Some t \<Rightarrow>
          (case t_unary_perm (\<lambda>v. hard_zero thr (v * \<bar>factor\<bar>)) p t of
             Inl e \<Rightarrow> Inl e
           | Inr t' \<Rightarrow>
               Inr \<lparr>tile_norms = Some t',
                    size_vectors = perm_size_vectors p (length (extent t)) (size_vectors s)\<rparr>))"

text \<open>
  The six overloads of \<open>add\<close>: \<open>add(other)\<close>, \<open>add(other, perm)\<close>,
  \<open>add(other, factor)\<close>, \<open>add(other, factor, perm)\<close>, \<open>add(value)\<close> and
  \<open>add(value, perm)\<close>.
\<close>

definition add_shape :: "'a::linordered_field sparse_shape \<Rightarrow> 'a sparse_shape
    \<Rightarrow> ta_error + 'a sparse_shape" where
  "add_shape other s =
     (case tile_norms s of
        None \<Rightarrow> Inl PreconditionViolated
      | Some t \<Rightarrow>
          (case t_binary (\<lambda>l r. l + r) t (tile_norms other) of
             Inl e \<Rightarrow> Inl e
           | Inr t' \<Rightarrow> Inr \<lparr>tile_norms = Some t', size_vectors = size_vectors s\<rparr>))"

definition add_shape_perm :: "'a::linordered_field sparse_shape \<Rightarrow> permutation \<Rightarrow> 'a sparse_shape
    \<Rightarrow> ta_error + 'a sparse_shape" where
  "add_shape_perm other p s =
     (case tile_norms s of
        None \<Rightarrow> Inl PreconditionViolated
      | Some t \<Rightarrow>
          (case t_binary_perm (\<lambda>l r. l + r) p t (tile_norms other) of
             Inl e \<Rightarrow> Inl e
           | Inr t' \<Rightarrow>
               Inr \<lparr>tile_norms = Some t',
                    size_vectors = perm_size_vectors p (length (extent t)) (size_vectors s)\<rparr>))"

definition add_shape_factor :: "'a::linordered_field \<Rightarrow> 'a sparse_shape \<Rightarrow> 'a \<Rightarrow> 'a sparse_shape
    \<Rightarrow> ta_error + 'a sparse_shape" where
  "add_shape_factor thr other factor s =
     (case tile_norms s of
        None \<Rightarrow> Inl PreconditionViolated
      | Some t \<Rightarrow>
          (case t_binary (\<lambda>l r. hard_zero thr ((l + r) * \<bar>factor\<bar>)) t (tile_norms other) of
             Inl e \<Rightarrow> Inl e
           | Inr t' \<Rightarrow> Inr \<lparr>tile_norms = Some t', size_vectors = size_vectors s\<rparr>))"

definition add_shape_factor_perm :: "'a::linordered_field \<Rightarrow> 'a sparse_shape \<Rightarrow> 'a \<Rightarrow> permutation
    \<Rightarrow> 'a sparse_shape \<Rightarrow> ta_error + 'a sparse_shape" where
  "add_shape_factor_perm thr other factor p s =
     (case tile_norms s of
        None \<Rightarrow> Inl PreconditionViolated
      | Some t \<Rightarrow>
          (case t_binary_perm (\<lambda>l r. hard_zero thr ((l + r) * \<bar>factor\<bar>)) p t (tile_norms other) of
             Inl e \<Rightarrow> Inl e
           | Inr t' \<Rightarrow>
               Inr \<lparr>tile_norms = Some t',
                    size_vectors = perm_size_vectors p (length (extent t)) (size_vectors s)\<rparr>))"

text \<open>
  \<open>add(value)\<close> fills a new tensor of the range of \<open>tile_norms_\<close>: with the
  four-pointer \<open>binary_vector_op\<close> in one dimension, with the six-argument
  \<open>outer_fill\<close> otherwise (it copies the element \<open>i * n + j\<close> of \<open>tile_norms_\<close> and
  updates the copy with \<open>left[i]\<close> and \<open>right[j]\<close>). Elements that these loops do
  not reach are not initialized and are left out of the model.
\<close>

definition add_value :: "'a::linordered_field \<Rightarrow> ('a \<Rightarrow> 'a) \<Rightarrow> 'a \<Rightarrow> 'a sparse_shape
    \<Rightarrow> ta_error + 'a sparse_shape" where
  "add_value thr sqrtf v s =
     (case tile_norms s of
        None \<Rightarrow> Inl PreconditionViolated
      | Some t \<Rightarrow>
          if length (extent t) = 1 then
            Inr \<lparr>tile_norms = Some \<lparr>extent = extent t,
                     elems = map (\<lambda>i. hard_zero thr (elems t ! i + \<bar>v\<bar> / sqrtf (size_vectors s ! 0 ! i)))
                               [0..<length (size_vectors s ! 0)]\<rparr>,
                 size_vectors = size_vectors s\<rparr>
          else
            (case recursive_outer_product (size_vectors s)
                    (length (extent t) div 2 + length (extent t) mod 2)
                    (map (\<lambda>sz. 1 / sqrtf sz)) of
               None \<Rightarrow> Inl NoReturn
             | Some left \<Rightarrow>
                 (case recursive_outer_product
                         (drop (length (extent t) div 2 + length (extent t) mod 2) (size_vectors s))
                         (length (extent t) - (length (extent t) div 2 + length (extent t) mod 2))
                         (map (\<lambda>sz. 1 / sqrtf sz)) of
                    None \<Rightarrow> Inl NoReturn
                  | Some right \<Rightarrow>
                      Inr \<lparr>tile_norms = Some \<lparr>extent = extent t,
                               elems = concat (map (\<lambda>i. map (\<lambda>j.
                                   hard_zero thr (elems t ! (i * length right + j)
                                                  + \<bar>v\<bar> * (left ! i) * (right ! j)))
                                 [0..<length right]) [0..<length left])\<rparr>,
                           size_vectors = size_vectors s\<rparr>)))"

definition add_value_perm :: "'a::linordered_field \<Rightarrow> ('a \<Rightarrow> 'a) \<Rightarrow> 'a \<Rightarrow> permutation
    \<Rightarrow> 'a sparse_shape \<Rightarrow> ta_error + 'a sparse_shape" where
  "add_value_perm thr sqrtf v p s =
     (case add_value thr sqrtf v s of Inl e \<Rightarrow> Inl e | Inr s' \<Rightarrow> perm p s')"

text \<open>The six overloads of \<open>subt\<close>, in the order of the source.\<close>

definition subt_shape :: "'a::linordered_field sparse_shape \<Rightarrow> 'a sparse_shape
    \<Rightarrow> ta_error + 'a sparse_shape" where
  "subt_shape other s = add_shape other s"

definition subt_shape_perm :: "'a::linordered_field sparse_shape \<Rightarrow> permutation \<Rightarrow> 'a sparse_shape
    \<Rightarrow> ta_error + 'a sparse_shape" where
  "subt_shape_perm other p s = add_shape_perm other p s"

definition subt_shape_factor :: "'a::linordered_field \<Rightarrow> 'a sparse_shape \<Rightarrow> 'a \<Rightarrow> 'a sparse_shape
    \<Rightarrow> ta_error + 'a sparse_shape" where
  "subt_shape_factor thr other factor s = add_shape_factor thr other factor s"

definition subt_shape_factor_perm :: "'a::linordered_field \<Rightarrow> 'a sparse_shape \<Rightarrow> 'a \<Rightarrow> permutation
    \<Rightarrow> 'a sparse_shape \<Rightarrow> ta_error + 'a sparse_shape" where
  "subt_shape_factor_perm thr other factor p s = add_shape_factor_perm thr other factor p s"

definition subt_value :: "'a::linordered_field \<Rightarrow> ('a \<Rightarrow> 'a) \<Rightarrow> 'a \<Rightarrow> 'a sparse_shape
    \<Rightarrow> ta_error + 'a sparse_shape" where
  "subt_value thr sqrtf v s = add_value thr sqrtf v s"

definition subt_value_perm :: "'a::linordered_field \<Rightarrow> ('a \<Rightarrow> 'a) \<Rightarrow> 'a \<Rightarrow> permutation
    \<Rightarrow> 'a sparse_shape \<Rightarrow> ta_error + 'a sparse_shape" where
  "subt_value_perm thr sqrtf v p s = add_value_perm thr sqrtf v p s"

text \<open>\<open>scale_by_size(tile_norms, size_vectors)\<close>.\<close>

definition scale_by_size :: "'a::linordered_field \<Rightarrow> 'a tensor \<Rightarrow> 'a list list \<Rightarrow> ta_error + 'a tensor" where
  "scale_by_size thr t svs =
     (if length (extent t) = 1 then
        Inr (t\<lparr>elems := binary_vector_op (length (svs ! 0)) (\<lambda>nrm sz. nrm * sz)
                 (svs ! 0) (elems t)\<rparr>)
      else
        (case recursive_outer_product svs (length (extent t) div 2 + length (extent t) mod 2)
                (\<lambda>size_vector. size_vector) of
           None \<Rightarrow> Inl NoReturn
         | Some left \<Rightarrow>
             (case recursive_outer_product
                     (drop (length (extent t) div 2 + length (extent t) mod 2) svs)
                     (length (extent t) - (length (extent t) div 2 + length (extent t) mod 2))
                     (\<lambda>size_vector. size_vector) of
                None \<Rightarrow> Inl NoReturn
              | Some right \<Rightarrow>
                  Inr (t\<lparr>elems := outer (length left) (length right)
                          (\<lambda>nrm x y. hard_zero thr (nrm * (x * y))) left right (elems t)\<rparr>))))"

text \<open>
  The four overloads of \<open>mult\<close>: \<open>mult(other)\<close>, \<open>mult(other, perm)\<close>,
  \<open>mult(other, factor)\<close> and \<open>mult(other, factor, perm)\<close>.
\<close>

definition mult :: "'a::linordered_field \<Rightarrow> 'a sparse_shape \<Rightarrow> 'a sparse_shape
    \<Rightarrow> ta_error + 'a sparse_shape" where
  "mult thr other s =
     (case tile_norms s of
        None \<Rightarrow> Inl PreconditionViolated
      | Some t \<Rightarrow>
          (case t_binary (\<lambda>l r. l * r) t (tile_norms other) of
             Inl e \<Rightarrow> Inl e
           | Inr r \<Rightarrow>
               (case scale_by_size thr r (size_vectors s) of
                  Inl e \<Rightarrow> Inl e
                | Inr r' \<Rightarrow> Inr \<lparr>tile_norms = Some r', size_vectors = size_vectors s\<rparr>)))"

definition mult_perm :: "'a::linordered_field \<Rightarrow> 'a sparse_shape \<Rightarrow> permutation \<Rightarrow> 'a sparse_shape
    \<Rightarrow> ta_error + 'a sparse_shape" where
  "mult_perm thr other p s =
     (case tile_norms s of
        None \<Rightarrow> Inl PreconditionViolated
      | Some t \<Rightarrow>
          (case t_binary_perm (\<lambda>l r. l * r) p t (tile_norms other) of
             Inl e \<Rightarrow> Inl e
           | Inr r \<Rightarrow>
               (case scale_by_size thr r (perm_size_vectors p (length (extent t)) (size_vectors s)) of
                  Inl e \<Rightarrow> Inl e
                | Inr r' \<Rightarrow>
                    Inr \<lparr>tile_norms = Some r',
                         size_vectors = perm_size_vectors p (length (extent t)) (size_vectors s)\<rparr>)))"

definition mult_factor :: "'a::linordered_field \<Rightarrow> 'a sparse_shape \<Rightarrow> 'a \<Rightarrow> 'a sparse_shape
    \<Rightarrow> ta_error + 'a sparse_shape" where
  "mult_factor thr other factor s =
     (case tile_norms s of
        None \<Rightarrow> Inl PreconditionViolated
      | Some t \<Rightarrow>
          (case t_binary (\<lambda>l r. l * r * \<bar>factor\<bar>) t (tile_norms other) of
             Inl e \<Rightarrow> Inl e
           | Inr r \<Rightarrow>
               (case scale_by_size thr r (size_vectors s) of
                  Inl e \<Rightarrow> Inl e
                | Inr r' \<Rightarrow> Inr \<lparr>tile_norms = Some r', size_vectors = size_vectors s\<rparr>)))"

definition mult_factor_perm :: "'a::linordered_field \<Rightarrow> 'a sparse_shape \<Rightarrow> 'a \<Rightarrow> permutation
    \<Rightarrow> 'a sparse_shape \<Rightarrow> ta_error + 'a sparse_shape" where
  "mult_factor_perm thr other factor p s =
     (case tile_norms s of
        None \<Rightarrow> Inl PreconditionViolated
      | Some t \<Rightarrow>
          (case t_binary_perm (\<lambda>l r. l * r * \<bar>factor\<bar>) p t (tile_norms other) of
             Inl e \<Rightarrow> Inl e
           | Inr r \<Rightarrow>
               (case scale_by_size thr r (perm_size_vectors p (length (extent t)) (size_vectors s)) of
                  Inl e \<Rightarrow> Inl e
                | Inr r' \<Rightarrow>
                    Inr \<lparr>tile_norms = Some r',
                         size_vectors = perm_size_vectors p (length (extent t)) (size_vectors s)\<rparr>)))"

text \<open>
  \<open>gemm(other, factor, gemm_helper)\<close>. The result size vectors are an array of
  \<open>result_rank()\<close> vectors, of which the two loops fill the first ones. With inner
  ranks, the rows of the left norms are multiplied elementwise by \<open>k_sizes\<close> and row
  \<open>k\<close> of the right norms is scaled by \<open>k_sizes[k]\<close>; without, the result is filled by
  \<open>outer_fill\<close>. Then \<open>inplace_unary\<close> zeroes what is below the threshold.
\<close>

definition gemm :: "'a::linordered_field \<Rightarrow> 'a sparse_shape \<Rightarrow> 'a \<Rightarrow> gemm_helper \<Rightarrow> 'a sparse_shape
    \<Rightarrow> ta_error + 'a sparse_shape" where
  "gemm thr other factor h s =
     (case tile_norms s of
        None \<Rightarrow> Inl PreconditionViolated
      | Some t \<Rightarrow>
          (case tile_norms other of
             None \<Rightarrow> Inl PreconditionViolated
           | Some u \<Rightarrow>
               (case compute_matrix_sizes h (extent t) (extent u) of
                  (M, N, K) \<Rightarrow>
                    (let filled = map ((!) (size_vectors s)) [left_outer_begin h..<left_outer_end h]
                                  @ map ((!) (size_vectors other)) [right_outer_begin h..<right_outer_end h];
                         result_size_vectors = filled @ replicate (result_rank h - length filled) [];
                         k_rank = left_inner_end h - left_inner_begin h
                     in
                       if k_rank > 0 then
                         (case recursive_outer_product (drop (left_inner_begin h) (size_vectors s))
                                 k_rank (\<lambda>size_vector. size_vector) of
                            None \<Rightarrow> Inl NoReturn
                          | Some k_sizes \<Rightarrow>
                              (let left = t\<lparr>elems := map (\<lambda>i. elems t ! i * k_sizes ! (i mod K)) [0..<M * K]\<rparr>;
                                   right = u\<lparr>elems := map (\<lambda>i. elems u ! i * k_sizes ! (i div N)) [0..<K * N]\<rparr>
                               in Inr \<lparr>tile_norms = Some (t_unary (hard_zero thr) (t_gemm h \<bar>factor\<bar> left right)),
                                       size_vectors = result_size_vectors\<rparr>))
                       else
                         Inr \<lparr>tile_norms = Some (t_unary (hard_zero thr)
                                  \<lparr>extent = make_result_range h (extent t) (extent u),
                                   elems = outer_fill M N (\<lambda>l r. hard_zero thr (l * r * \<bar>factor\<bar>))
                                             (elems t) (elems u)\<rparr>),
                              size_vectors = result_size_vectors\<rparr>))))"

definition gemm_perm :: "'a::linordered_field \<Rightarrow> 'a sparse_shape \<Rightarrow> 'a \<Rightarrow> gemm_helper \<Rightarrow> permutation
    \<Rightarrow> 'a sparse_shape \<Rightarrow> ta_error + 'a sparse_shape" where
  "gemm_perm thr other factor h p s =
     (case gemm thr other factor h s of Inl e \<Rightarrow> Inl e | Inr s' \<Rightarrow> perm p s')"

section \<open>Properties of the reduce task\<close>

text \<open>
  C8. With no argument added, \<open>submit()\<close> sets the result future to \<open>op(op())\<close>, and
  the completion callback is notified exactly when there is one.
\<close>

theorem submit_no_args:
  "\<exists>s. submit opr (ReduceTask opr cb) = Inr s
       \<and> result s = Some (op_post opr (op_identity opr))
       \<and> trace s = [EvDec, EvSet] @ (if cb then [EvNotifyDone] else [])"
  by (simp add: submit_def ReduceTask_def run_def dec_def emit_def)

subsection \<open>The invariant is kept by every step\<close>

lemma sum_list_map_update:
  fixes g :: "'b \<Rightarrow> 'c::comm_monoid_add"
  shows "n < length xs \<Longrightarrow> sum_list (map g (xs[n := y])) + g (xs ! n) = sum_list (map g xs) + g y"
proof (induction xs arbitrary: n)
  case Nil
  then show ?case by simp
next
  case (Cons x xs)
  then show ?case
    by (cases n) (simp_all add: ac_simps)
qed

lemma lift_update:
  fixes g :: "'b \<Rightarrow> 'c::cancel_comm_monoid_add"
  assumes "n < length xs" and "a' + g y = a + g (xs ! n)"
  shows "a' + sum_list (map g (xs[n := y])) = a + sum_list (map g xs)"
proof -
  have "a' + sum_list (map g (xs[n := y])) + g (xs ! n) = a' + (sum_list (map g xs) + g y)"
    using sum_list_map_update[OF assms(1), of g y] by (simp add: add.assoc)
  also have "\<dots> = (a' + g y) + sum_list (map g xs)" by (simp add: ac_simps)
  also have "\<dots> = a + sum_list (map g xs) + g (xs ! n)"
    unfolding assms(2) by (simp add: ac_simps)
  finally show ?thesis by simp
qed

lemma sum_list_map_remove:
  fixes g :: "'b \<Rightarrow> 'c::comm_monoid_add"
  assumes "n < length xs"
  shows "sum_list (map g (take n xs @ drop (Suc n) xs)) + g (xs ! n) = sum_list (map g xs)"
proof -
  have "sum_list (map g xs) = sum_list (map g (take n xs @ xs ! n # drop (Suc n) xs))"
    using id_take_nth_drop[OF assms] by simp
  then show ?thesis by (simp add: ac_simps)
qed

lemma work_frame:
  "work opr f s = (f', s') \<Longrightarrow>
     pimpl s' = pimpl s \<and> waiting s' = waiting s \<and> tasks s' = tasks s
     \<and> count_args s' = count_args s \<and> queued s' = queued s \<and> result s' = result s
     \<and> callback s' = callback s"
  by (cases f) (auto simp: emit_def dec_def destroy_def split: option.splits)

lemma work_ndep:
  "work opr f s = (f', s') \<Longrightarrow> f \<noteq> Return_decs 0 \<Longrightarrow>
     (case ready_object s' of None \<Rightarrow> 0 | Some ro \<Rightarrow> 1) + owed f' - ndep s'
     = (case ready_object s of None \<Rightarrow> 0 | Some ro \<Rightarrow> (1::int)) + owed f - ndep s"
  by (cases f) (auto simp: emit_def dec_def destroy_def split: option.splits)

lemma work_holds:
  "work opr f s = (f', s') \<Longrightarrow> f \<noteq> Return_decs 0 \<Longrightarrow>
     ready_result s' \<noteq> None \<or> 1 \<le> holds f' \<or> (ready_result s' = ready_result s \<and> holds f' = holds f)"
  by (cases f) (auto simp: emit_def dec_def destroy_def split: option.splits)

lemma work_excl:
  "work opr f s = (f', s') \<Longrightarrow> ready_result s = None \<or> ready_object s = None \<Longrightarrow>
     ready_result s' = None \<or> ready_object s' = None"
  by (cases f) (auto simp: emit_def dec_def destroy_def split: option.splits)

lemma work_reduced:
  "work opr f s = (f', s') \<Longrightarrow>
     sum_list (map reduced (trace s')) + parked s' + to_reduce f'
     = sum_list (map reduced (trace s)) + parked s + to_reduce f"
  by (cases f) (auto simp: emit_def dec_def destroy_def destroy_events_def parked_def split: option.splits)

lemma work_deleted:
  "work opr f s = (f', s') \<Longrightarrow>
     sum_list (map deleted (trace s')) + parked s' + to_destroy f'
     = sum_list (map deleted (trace s)) + parked s + to_destroy f"
  by (cases f) (auto simp: emit_def dec_def destroy_def destroy_events_def parked_def split: option.splits)

lemma owed_nonneg: "0 \<le> owed f"
  by (cases f) simp_all

lemma decs_after_pos: "0 < decs_after c"
  by (cases c) simp_all

lemma owed_zero: "owed f = 0 \<longleftrightarrow> f = Return_decs 0"
  using decs_after_pos by (cases f) (auto simp: neq0_conv)

lemma sum_owed_nonneg: "0 \<le> sum_list (map owed fs)"
  by (rule sum_list_nonneg) (auto simp: owed_nonneg)

lemma finished:
  assumes "task_inv s" "ndep s = 0"
  shows "\<not> pimpl s \<and> waiting s = [] \<and> ready_object s = None
         \<and> (\<forall>f\<in>set (tasks s). f = Return_decs 0)"
proof -
  have eq: "0 = (if pimpl s then 1 else 0) + int (length (waiting s))
               + (case ready_object s of None \<Rightarrow> 0 | Some ro \<Rightarrow> 1)
               + sum_list (map owed (tasks s))"
    using assms by (simp add: task_inv_def)
  define P :: int where "P = (if pimpl s then 1 else 0)"
  define R :: int where "R = (case ready_object s of None \<Rightarrow> 0 | Some ro \<Rightarrow> 1)"
  have nonneg: "0 \<le> P" "0 \<le> R" "0 \<le> int (length (waiting s))"
    "0 \<le> sum_list (map owed (tasks s))"
    using sum_owed_nonneg[of "tasks s"] by (simp_all add: P_def R_def split: option.splits)
  have "0 = P + int (length (waiting s)) + R + sum_list (map owed (tasks s))"
    using eq by (simp add: P_def R_def)
  then have zs: "P = 0" "R = 0" "int (length (waiting s)) = 0" "sum_list (map owed (tasks s)) = 0"
    using nonneg by linarith+
  have z: "sum_list (map owed (tasks s)) = 0" "\<not> pimpl s" "waiting s = []"
    "ready_object s = None"
    using zs by (auto simp: P_def R_def split: if_splits option.splits)
  have "\<forall>x\<in>set (map owed (tasks s)). x = 0"
    using z(1) sum_list_nonneg_eq_0_iff[of "map owed (tasks s)"] owed_nonneg by auto
  then have "\<forall>f\<in>set (tasks s). f = Return_decs 0" by (simp add: owed_zero)
  then show ?thesis using z by simp
qed

lemma task_inv_work:
  assumes inv: "task_inv s" and n: "n < length (tasks s)"
    and nz: "tasks s ! n \<noteq> Return_decs 0"
    and w: "work opr (tasks s ! n) s = (f', s1)"
  shows "task_inv (s1\<lparr>tasks := (tasks s1)[n := f']\<rparr>)"
proof -
  note fr = work_frame[OF w]
  let ?f = "tasks s ! n"
  let ?ts = "(tasks s)[n := f']"
  have resN: "result s = None"
  proof (rule ccontr)
    assume "result s \<noteq> None"
    then have "ndep s = 0" using inv by (auto simp: task_inv_def)
    then have "?f = Return_decs 0" using finished[OF inv] n by auto
    then show False using nz by simp
  qed
  have so: "sum_list (map owed ?ts) + owed ?f = sum_list (map owed (tasks s)) + owed f'"
    by (rule sum_list_map_update[OF n])
  have c1: "ndep s1 = (if pimpl s then 1 else 0) + int (length (waiting s))
               + (case ready_object s1 of None \<Rightarrow> 0 | Some ro \<Rightarrow> 1)
               + sum_list (map owed ?ts)"
    using inv so work_ndep[OF w nz] by (simp add: task_inv_def)
  have sh: "sum_list (map holds ?ts) + holds ?f = sum_list (map holds (tasks s)) + holds f'"
    by (rule sum_list_map_update[OF n])
  have hle: "holds ?f \<le> sum_list (map holds (tasks s))"
    using n by (intro member_le_sum_list) auto
  have c2: "ready_result s1 \<noteq> None \<or> 1 \<le> sum_list (map holds ?ts)"
    using inv work_holds[OF w nz] sh hle by (auto simp: task_inv_def)
  have c3: "ready_result s1 = None \<or> ready_object s1 = None"
    using inv work_excl[OF w] by (simp add: task_inv_def)
  have c4: "sum_list (map reduced (trace s1)) + parked s1 + sum_list (map to_reduce ?ts)
            = mset [0..<count_args s]"
    using lift_update[OF n work_reduced[OF w]] inv by (simp add: task_inv_def)
  have c5: "sum_list (map deleted (trace s1)) + parked s1 + sum_list (map to_destroy ?ts)
            = mset [0..<count_args s]"
    using lift_update[OF n work_deleted[OF w]] inv by (simp add: task_inv_def)
  have ro: "(case ready_object s1 of None \<Rightarrow> 0 | Some ro \<Rightarrow> (1::nat))
            \<le> (case ready_object s of None \<Rightarrow> 0 | Some ro \<Rightarrow> 1)"
    using w by (cases ?f) (auto simp: emit_def dec_def destroy_def split: option.splits)
  have c6: "length ?ts + length (waiting s)
          + (case ready_object s1 of None \<Rightarrow> 0 | Some ro \<Rightarrow> 1) \<le> count_args s"
    using inv ro by (simp add: task_inv_def)
  have c7: "pimpl s \<or> queued s \<or> result s \<noteq> None"
    using inv by (simp add: task_inv_def)
  show ?thesis
    unfolding task_inv_def using c1 c2 c3 c4 c5 c6 c7 resN fr by (simp add: parked_def)
qed

lemma task_inv_ready:
  assumes "ndep s = (if pimpl s then 1 else 0) + int (length (waiting s))
               + (case ready_object s of None \<Rightarrow> 0 | Some ro \<Rightarrow> 1)
               + sum_list (map owed (tasks s)) + 1"
    and "ready_result s \<noteq> None \<or> 1 \<le> sum_list (map holds (tasks s))"
    and "ready_result s = None \<or> ready_object s = None"
    and "sum_list (map reduced (trace s)) + parked s + sum_list (map to_reduce (tasks s))
           + {#obj_id object#} = mset [0..<N]"
    and "sum_list (map deleted (trace s)) + parked s + sum_list (map to_destroy (tasks s))
           + {#obj_id object#} = mset [0..<N]"
    and "length (tasks s) + length (waiting s)
          + (case ready_object s of None \<Rightarrow> 0 | Some ro \<Rightarrow> 1) + 1 \<le> N"
    and "pimpl s \<or> queued s \<or> result s \<noteq> None"
    and "result s = None"
  shows "task_inv ((ready object s)\<lparr>count_args := N\<rparr>)"
proof (cases "ready_result s")
  case None
  show ?thesis
  proof (cases "ready_object s")
    case None
    with \<open>ready_result s = None\<close> assms show ?thesis
      by (simp add: task_inv_def ready_def parked_def ac_simps)
  next
    case (Some ro)
    with \<open>ready_result s = None\<close> assms show ?thesis
      by (simp add: task_inv_def ready_def parked_def ac_simps add_mset_commute)
  qed
next
  case (Some r)
  with assms show ?thesis
    by (simp add: task_inv_def ready_def parked_def ac_simps)
qed

lemma mset_map_remove:
  assumes "n < length xs"
  shows "mset (map g (take n xs @ drop (Suc n) xs)) + {#g (xs ! n)#} = mset (map g xs)"
proof -
  have "mset (map g xs) = mset (map g (take n xs @ xs ! n # drop (Suc n) xs))"
    using id_take_nth_drop[OF assms] by simp
  then show ?thesis by simp
qed

lemma task_invD:
  assumes "task_inv s"
  shows "ndep s = (if pimpl s then 1 else 0) + int (length (waiting s))
               + (case ready_object s of None \<Rightarrow> 0 | Some ro \<Rightarrow> 1)
               + sum_list (map owed (tasks s))"
    and "ready_result s \<noteq> None \<or> 1 \<le> sum_list (map holds (tasks s))"
    and "ready_result s = None \<or> ready_object s = None"
    and "sum_list (map reduced (trace s)) + parked s + sum_list (map to_reduce (tasks s))
          = mset [0..<count_args s]"
    and "sum_list (map deleted (trace s)) + parked s + sum_list (map to_destroy (tasks s))
          = mset [0..<count_args s]"
    and "length (tasks s) + length (waiting s)
          + (case ready_object s of None \<Rightarrow> 0 | Some ro \<Rightarrow> 1) \<le> count_args s"
    and "pimpl s \<or> queued s \<or> result s \<noteq> None"
    and "result s = None \<or> (ndep s = 0 \<and> \<not> pimpl s)"
proof -
  note c = assms[unfolded task_inv_def]
  note c2 = conjunct2[OF c]
  note c3 = conjunct2[OF c2]
  note c4 = conjunct2[OF c3]
  note c5 = conjunct2[OF c4]
  note c6 = conjunct2[OF c5]
  note c7 = conjunct2[OF c6]
  show "ndep s = (if pimpl s then 1 else 0) + int (length (waiting s))
               + (case ready_object s of None \<Rightarrow> 0 | Some ro \<Rightarrow> 1)
               + sum_list (map owed (tasks s))"
    by (rule conjunct1[OF c])
  show "ready_result s \<noteq> None \<or> 1 \<le> sum_list (map holds (tasks s))"
    by (rule conjunct1[OF c2])
  show "ready_result s = None \<or> ready_object s = None"
    by (rule conjunct1[OF c3])
  show "sum_list (map reduced (trace s)) + parked s + sum_list (map to_reduce (tasks s))
          = mset [0..<count_args s]"
    by (rule conjunct1[OF c4])
  show "sum_list (map deleted (trace s)) + parked s + sum_list (map to_destroy (tasks s))
          = mset [0..<count_args s]"
    by (rule conjunct1[OF c5])
  show "length (tasks s) + length (waiting s)
          + (case ready_object s of None \<Rightarrow> 0 | Some ro \<Rightarrow> 1) \<le> count_args s"
    by (rule conjunct1[OF c6])
  show "pimpl s \<or> queued s \<or> result s \<noteq> None"
    by (rule conjunct1[OF c7])
  show "result s = None \<or> (ndep s = 0 \<and> \<not> pimpl s)"
    by (rule conjunct2[OF c7])
qed

lemma task_inv_notify:
  assumes inv: "task_inv s" and n: "n < length (waiting s)"
  shows "task_inv (notify n s)"
proof -
  obtain object c where oc: "waiting s ! n = (object, c)" by (cases "waiting s ! n")
  note i1 = task_invD(1)[OF inv] and i2 = task_invD(2)[OF inv] and i3 = task_invD(3)[OF inv]
    and i4 = task_invD(4)[OF inv] and i5 = task_invD(5)[OF inv] and i6 = task_invD(6)[OF inv]
    and i7 = task_invD(7)[OF inv] and i8 = task_invD(8)[OF inv]
  have resN: "result s = None"
  proof (rule ccontr)
    assume "result s \<noteq> None"
    then have "ndep s = 0" using i8 by auto
    then show False using finished[OF inv] n by auto
  qed
  show ?thesis
  proof (cases "c - 1 = 0")
    case True
    define ws where "ws = take n (waiting s) @ drop (Suc n) (waiting s)"
    let ?s0 = "s\<lparr>waiting := ws\<rparr>"
    have len: "length (waiting s) = Suc (length ws)"
      using n unfolding ws_def by (simp add: min_absorb2)
    have pk: "parked s = parked ?s0 + {#obj_id object#}"
      using mset_map_remove[OF n, of "\<lambda>w. obj_id (fst w)"] oc
      unfolding ws_def by (simp add: parked_def ac_simps)
    have "task_inv ((ready object ?s0)\<lparr>count_args := count_args s\<rparr>)"
    proof (rule task_inv_ready)
      show "ndep ?s0 = (if pimpl ?s0 then 1 else 0) + int (length (waiting ?s0))
               + (case ready_object ?s0 of None \<Rightarrow> 0 | Some ro \<Rightarrow> 1)
               + sum_list (map owed (tasks ?s0)) + 1"
        using i1 len by simp
      show "sum_list (map reduced (trace ?s0)) + parked ?s0 + sum_list (map to_reduce (tasks ?s0))
           + {#obj_id object#} = mset [0..<count_args s]"
        using i4 unfolding pk by (simp add: ac_simps)
      show "sum_list (map deleted (trace ?s0)) + parked ?s0 + sum_list (map to_destroy (tasks ?s0))
           + {#obj_id object#} = mset [0..<count_args s]"
        using i5 unfolding pk by (simp add: ac_simps)
      show "length (tasks ?s0) + length (waiting ?s0)
          + (case ready_object ?s0 of None \<Rightarrow> 0 | Some ro \<Rightarrow> 1) + 1 \<le> count_args s"
        using i6 len by simp
      show "ready_result ?s0 \<noteq> None \<or> 1 \<le> sum_list (map holds (tasks ?s0))"
        using i2 by simp
      show "ready_result ?s0 = None \<or> ready_object ?s0 = None"
        using i3 by simp
      show "pimpl ?s0 \<or> queued ?s0 \<or> result ?s0 \<noteq> None"
        using i7 by simp
      show "result ?s0 = None"
        using resN by simp
    qed
    moreover have "(ready object ?s0)\<lparr>count_args := count_args s\<rparr> = ready object ?s0"
      by (simp add: ready_def split: option.splits)
    ultimately show ?thesis using oc True by (simp add: notify_def ws_def)
  next
    case False
    have m: "\<And>x. map (\<lambda>w. obj_id (fst w)) ((waiting s)[n := (object, x)])
          = map (\<lambda>w. obj_id (fst w)) (waiting s)"
      by (rule nth_equalityI) (use oc n in \<open>auto simp: nth_list_update\<close>)
    have nt: "notify n s = s\<lparr>waiting := (waiting s)[n := (object, c - 1)]\<rparr>"
      using oc False by (simp add: notify_def)
    have pk: "parked (s\<lparr>waiting := (waiting s)[n := (object, c - 1)]\<rparr>) = parked s"
      unfolding parked_def by (simp add: m del: mset_map)
    show ?thesis
      unfolding nt task_inv_def pk
      using i1 i2 i3 i4 i5 i6 i7 resN by simp
  qed
qed

lemma task_inv_add:
  assumes inv: "task_inv s" and a: "add a cb unset s = Inr s'"
  shows "task_inv s'"
proof -
  have p: "pimpl s" using a by (auto simp: add_def split: if_splits)
  then have resN: "result s = None" using inv by (auto simp: task_inv_def)
  let ?o = "ReduceObject (count_args s) a cb"
  show ?thesis
  proof (cases "unset = 0")
    case True
    have s': "s' = (ready ?o (inc s))\<lparr>count_args := count_args s + 1\<rparr>"
      using a p True by (auto simp: add_def Let_def ready_def inc_def emit_def split: option.splits)
    show ?thesis unfolding s'
      by (rule task_inv_ready)
         (use inv p resN in \<open>simp_all add: task_inv_def inc_def emit_def parked_def\<close>)
  next
    case False
    then have s': "s' = (inc s)\<lparr>waiting := waiting s @ [(?o, unset)], count_args := count_args s + 1\<rparr>"
      using a p by (simp add: add_def Let_def inc_def emit_def)
    show ?thesis unfolding s'
      using inv p resN by (simp add: task_inv_def inc_def emit_def parked_def)
  qed
qed

lemma task_inv_run:
  assumes inv: "task_inv s" and z: "ndep s = 0" and r: "run opr s = Inr s'"
  shows "task_inv s'"
  using inv z r finished[OF inv z]
  by (auto simp: run_def task_inv_def emit_def parked_def split: option.splits)

lemma task_inv_submit:
  assumes inv: "task_inv s" and r: "submit opr s = Inr s'"
  shows "task_inv s'"
proof -
  have p: "pimpl s" using r by (auto simp: submit_def split: if_splits)
  then have resN: "result s = None" using inv by (auto simp: task_inv_def)
  show ?thesis
  proof (cases "count_args s = 0")
    case True
    then have e: "waiting s = []" "ready_object s = None" "tasks s = []"
      using inv by (auto simp: task_inv_def split: option.splits)
    then have nd: "ndep s = 1" using inv p by (simp add: task_inv_def)
    obtain rr where rr: "ready_result s = Some rr"
      using inv e by (auto simp: task_inv_def)
    have "s' = (emit (EvSet # (if callback s then [EvNotifyDone] else []))
                 ((dec s)\<lparr>result := Some (op_post opr rr)\<rparr>))\<lparr>pimpl := False\<rparr>"
      using r p True rr by (simp add: submit_def run_def dec_def emit_def)
    then show ?thesis using inv e nd rr True
      by (simp add: task_inv_def dec_def emit_def parked_def)
  next
    case False
    then have "s' = (dec (s\<lparr>queued := True\<rparr>))\<lparr>pimpl := False\<rparr>"
      using r p by (simp add: submit_def)
    then show ?thesis using inv p resN
      by (simp add: task_inv_def dec_def emit_def parked_def)
  qed
qed

lemma task_inv_step:
  assumes "task_inv s" and "step opr a s = Inr s'"
  shows "task_inv s'"
proof (cases a)
  case (Add v cb unset)
  then show ?thesis using assms task_inv_add by simp
next
  case Submit
  then show ?thesis using assms task_inv_submit by simp
next
  case (Notify n)
  then show ?thesis using assms task_inv_notify by (auto split: if_splits)
next
  case (Work n)
  then show ?thesis using assms task_inv_work[of s n opr]
    by (auto split: if_splits prod.splits simp: work_frame)
next
  case Run
  then show ?thesis using assms task_inv_run by (auto split: if_splits)
qed

lemma task_inv_init: "task_inv (ReduceTask opr cb)"
  by (simp add: task_inv_def ReduceTask_def parked_def)

lemma task_inv_exec:
  "task_inv s \<Longrightarrow> exec opr sched s = Inr s' \<Longrightarrow> task_inv s'"
proof (induction sched arbitrary: s)
  case Nil
  then show ?case by simp
next
  case (Cons a sched)
  obtain s1 where s1: "step opr a s = Inr s1" "exec opr sched s1 = Inr s'"
    using Cons.prems(2) by (auto split: sum.splits)
  have "task_inv s1" using task_inv_step[OF Cons.prems(1) s1(1)] .
  then show ?case using Cons.IH s1(2) by blast
qed

subsection \<open>The sum reducer\<close>

lemma work_held:
  "work sum_op f s = (f', s') \<Longrightarrow> f \<noteq> Return_decs 0 \<Longrightarrow>
     (case ready_result s' of None \<Rightarrow> 0 | Some r \<Rightarrow> r)
     + (case ready_object s' of None \<Rightarrow> 0 | Some ro \<Rightarrow> obj_arg ro) + held f'
     = (case ready_result s of None \<Rightarrow> 0 | Some r \<Rightarrow> r)
     + (case ready_object s of None \<Rightarrow> 0 | Some ro \<Rightarrow> obj_arg ro) + held f"
  by (cases f) (auto simp: sum_op_def emit_def dec_def destroy_def split: option.splits)

lemma carried_work:
  assumes n: "n < length (tasks s)" and nz: "tasks s ! n \<noteq> Return_decs 0"
    and w: "work sum_op (tasks s ! n) s = (f', s1)"
  shows "carried (s1\<lparr>tasks := (tasks s1)[n := f']\<rparr>) = carried s"
proof -
  note fr = work_frame[OF w]
  have "(case ready_result s1 of None \<Rightarrow> 0 | Some r \<Rightarrow> r)
     + (case ready_object s1 of None \<Rightarrow> 0 | Some ro \<Rightarrow> obj_arg ro)
     + sum_list (map held ((tasks s)[n := f']))
     = (case ready_result s of None \<Rightarrow> 0 | Some r \<Rightarrow> r)
     + (case ready_object s of None \<Rightarrow> 0 | Some ro \<Rightarrow> obj_arg ro)
     + sum_list (map held (tasks s))"
    by (rule lift_update[OF n work_held[OF w nz]])
  then show ?thesis using fr by (simp add: carried_def)
qed

lemma carried_ready:
  "carried (ready object s) = carried s + obj_arg object"
  by (simp add: carried_def ready_def split: option.splits)

lemma carried_notify:
  assumes n: "n < length (waiting s)"
  shows "carried (notify n s) = carried s"
proof -
  obtain object c where oc: "waiting s ! n = (object, c)" by (cases "waiting s ! n")
  show ?thesis
  proof (cases "c - 1 = 0")
    case True
    define ws where "ws = take n (waiting s) @ drop (Suc n) (waiting s)"
    have "sum_list (map (\<lambda>w. obj_arg (fst w)) ws) + obj_arg object
          = sum_list (map (\<lambda>w. obj_arg (fst w)) (waiting s))"
      unfolding ws_def using sum_list_map_remove[OF n, of "\<lambda>w. obj_arg (fst w)"] oc by simp
    then have "carried (s\<lparr>waiting := ws\<rparr>) + obj_arg object = carried s"
      by (simp add: carried_def)
    then show ?thesis using oc True by (simp add: notify_def carried_ready ws_def)
  next
    case False
    have m: "\<And>x. map (\<lambda>w. obj_arg (fst w)) ((waiting s)[n := (object, x)])
          = map (\<lambda>w. obj_arg (fst w)) (waiting s)"
      by (rule nth_equalityI) (use oc n in \<open>auto simp: nth_list_update\<close>)
    show ?thesis using oc False by (simp add: notify_def carried_def m)
  qed
qed

lemma carried_add:
  assumes "add a cb unset s = Inr s'"
  shows "carried s' = carried s + a"
proof -
  have p: "pimpl s" using assms by (auto simp: add_def split: if_splits)
  show ?thesis
  proof (cases "unset = 0")
    case True
    then have "s' = (ready (ReduceObject (count_args s) a cb) (inc s))
                     \<lparr>count_args := count_args (ready (ReduceObject (count_args s) a cb) (inc s)) + 1\<rparr>"
      using assms p by (simp add: add_def Let_def)
    then have "carried s' = carried (ready (ReduceObject (count_args s) a cb) (inc s))"
      by (simp add: carried_def)
    then show ?thesis by (simp add: carried_ready) (simp add: carried_def inc_def emit_def)
  next
    case False
    then show ?thesis using assms p by (auto simp: add_def Let_def carried_def inc_def emit_def)
  qed
qed

lemma carried_run: "run sum_op s = Inr s' \<Longrightarrow> carried s' = carried s"
  by (auto simp: run_def carried_def emit_def split: option.splits)

lemma carried_submit: "submit sum_op s = Inr s' \<Longrightarrow> carried s' = carried s"
  by (auto simp: submit_def run_def carried_def emit_def dec_def split: option.splits if_splits)

lemma sum_list_all_zero:
  "(\<forall>x\<in>set xs. g x = 0) \<Longrightarrow> sum_list (map g xs) = (0::int)"
  by (induction xs) auto

lemma finished_carried:
  assumes "task_inv s" "ndep s = 0" "ready_result s = Some r"
  shows "carried s = r"
proof -
  have f: "waiting s = []" "ready_object s = None" "\<forall>f\<in>set (tasks s). f = Return_decs 0"
    using finished[OF assms(1,2)] by simp_all
  have "sum_list (map held (tasks s)) = 0"
    using f(3) by (intro sum_list_all_zero) auto
  then show ?thesis using f assms(3) by (simp add: carried_def)
qed

lemma after_result_no_step:
  assumes inv: "task_inv s" and r: "result s \<noteq> None"
  shows "step opr a s \<noteq> Inr s'"
proof -
  have z: "ndep s = 0" "\<not> pimpl s" using task_invD(8)[OF inv] r by auto
  note f = finished[OF inv z(1)]
  show ?thesis
  proof (cases a)
    case (Add v cb unset)
    then show ?thesis using z by (simp add: add_def)
  next
    case Submit
    then show ?thesis using z by (simp add: submit_def)
  next
    case (Notify n)
    then show ?thesis using f by simp
  next
    case (Work n)
    then show ?thesis using f by auto
  next
    case Run
    then show ?thesis using r by auto
  qed
qed

lemma sum_inv_step:
  assumes inv: "task_inv s" and si: "sum_inv tot s" and st: "step sum_op a s = Inr s'"
  shows "sum_inv (tot + added [a]) s'"
proof -
  have rn: "result s = None"
  proof (rule ccontr)
    assume "result s \<noteq> None"
    from after_result_no_step[OF inv this, of sum_op a s'] st show False by simp
  qed
  show ?thesis
  proof (cases a)
    case (Add v cb unset)
    then have "carried s' = carried s + v" "result s' = None"
      using st carried_add[of v cb unset s s'] rn
      by (auto simp: add_def Let_def ready_def inc_def emit_def split: if_splits option.splits)
    then show ?thesis using si Add by (simp add: sum_inv_def)
  next
    case Submit
    show ?thesis
    proof (cases "count_args s = 0")
      case True
      have p: "pimpl s" using st Submit by (auto simp: submit_def split: if_splits)
      have e: "waiting s = []" "ready_object s = None" "tasks s = []"
        using task_invD(6)[OF inv] True by (auto split: option.splits)
      obtain rr where rr: "ready_result s = Some rr"
        using task_invD(2)[OF inv] e by auto
      have c: "carried s = rr" using e rr by (simp add: carried_def)
      have "result s' = Some rr"
        using st Submit True p rr by (auto simp: submit_def run_def dec_def emit_def sum_op_def)
      then show ?thesis using si c carried_submit[of s s'] st Submit by (simp add: sum_inv_def)
    next
      case False
      then have "result s' = None" using st Submit rn
        by (auto simp: submit_def dec_def emit_def split: if_splits)
      then show ?thesis using si carried_submit[of s s'] st Submit by (simp add: sum_inv_def)
    qed
  next
    case (Notify n)
    then have "carried s' = carried s" "result s' = None"
      using st carried_notify[of n s] rn
      by (auto simp: notify_def ready_def split: if_splits prod.splits option.splits)
    then show ?thesis using si Notify by (simp add: sum_inv_def)
  next
    case (Work n)
    then obtain f' s1 where w: "n < length (tasks s)" "tasks s ! n \<noteq> Return_decs 0"
      "work sum_op (tasks s ! n) s = (f', s1)" "s' = s1\<lparr>tasks := (tasks s1)[n := f']\<rparr>"
      using st by (auto split: if_splits prod.splits)
    have "carried s' = carried s" unfolding w(4) by (rule carried_work[OF w(1,2,3)])
    moreover have "result s' = None" using w(4) work_frame[OF w(3)] rn by simp
    ultimately show ?thesis using si Work by (simp add: sum_inv_def)
  next
    case Run
    then have g: "ndep s = 0" "run sum_op s = Inr s'" using st by (auto split: if_splits)
    then obtain rr where rr: "ready_result s = Some rr" "result s' = Some rr"
      by (auto simp: run_def emit_def sum_op_def split: option.splits)
    have "carried s = rr" using finished_carried[OF inv g(1) rr(1)] .
    then show ?thesis using si rr carried_run[OF g(2)] Run by (simp add: sum_inv_def)
  qed
qed

lemma added_append: "added (xs @ ys) = added xs + added ys"
  by (induction xs rule: added.induct) simp_all

lemma sum_inv_exec:
  "task_inv s \<Longrightarrow> sum_inv tot s \<Longrightarrow> exec sum_op sched s = Inr s'
   \<Longrightarrow> sum_inv (tot + added sched) s'"
proof (induction sched arbitrary: s tot)
  case Nil
  then show ?case by simp
next
  case (Cons a sched)
  obtain s1 where s1: "step sum_op a s = Inr s1" "exec sum_op sched s1 = Inr s'"
    using Cons.prems(3) by (auto split: sum.splits)
  have i1: "task_inv s1" using task_inv_step[OF Cons.prems(1) s1(1)] .
  have "sum_inv (tot + added [a]) s1" using sum_inv_step[OF Cons.prems(1,2) s1(1)] .
  then have "sum_inv (tot + added [a] + added sched) s'" using Cons.IH[OF i1 _ s1(2)] by blast
  moreover have "added (a # sched) = added [a] + added sched"
    using added_append[of "[a]" sched] by simp
  ultimately show ?case by (simp add: add.assoc)
qed

subsection \<open>A bound on the steps, and progress\<close>

lemma work_steps:
  "work opr f s = (f', s') \<Longrightarrow> f \<noteq> Return_decs 0 \<Longrightarrow>
     (case ready_result s' of None \<Rightarrow> 0 | Some r \<Rightarrow> 2)
     + (case ready_object s' of None \<Rightarrow> 0 | Some ro \<Rightarrow> 4) + 1 + frame_steps f'
     = (case ready_result s of None \<Rightarrow> 0 | Some r \<Rightarrow> 2)
     + (case ready_object s of None \<Rightarrow> 0 | Some ro \<Rightarrow> (4::nat)) + frame_steps f"
  by (cases f) (auto simp: emit_def dec_def destroy_def split: option.splits)

lemma steps_left_work:
  assumes n: "n < length (tasks s)" and nz: "tasks s ! n \<noteq> Return_decs 0"
    and w: "work opr (tasks s ! n) s = (f', s1)"
  shows "steps_left (s1\<lparr>tasks := (tasks s1)[n := f']\<rparr>) + 1 = steps_left s"
proof -
  note fr = work_frame[OF w]
  have "(case ready_result s1 of None \<Rightarrow> 0 | Some r \<Rightarrow> 2)
     + (case ready_object s1 of None \<Rightarrow> 0 | Some ro \<Rightarrow> 4) + 1
     + sum_list (map frame_steps ((tasks s)[n := f']))
     = (case ready_result s of None \<Rightarrow> 0 | Some r \<Rightarrow> 2)
     + (case ready_object s of None \<Rightarrow> 0 | Some ro \<Rightarrow> (4::nat))
     + sum_list (map frame_steps (tasks s))"
    by (rule lift_update[OF n work_steps[OF w nz]])
  then show ?thesis using fr by (simp add: steps_left_def)
qed

lemma steps_left_ready: "steps_left (ready object s) = steps_left s + 4"
  by (simp add: steps_left_def ready_def split: option.splits)

lemma steps_left_notify:
  assumes n: "n < length (waiting s)"
  shows "steps_left (notify n s) + 1 \<le> steps_left s"
proof -
  obtain object c where oc: "waiting s ! n = (object, c)" by (cases "waiting s ! n")
  show ?thesis
  proof (cases "c - 1 = 0")
    case True
    define ws where "ws = take n (waiting s) @ drop (Suc n) (waiting s)"
    have "sum_list (map (\<lambda>w. snd w + 5) ws) + (c + 5)
          = sum_list (map (\<lambda>w. snd w + 5) (waiting s))"
      unfolding ws_def using sum_list_map_remove[OF n, of "\<lambda>w. snd w + 5"] oc by simp
    then have "steps_left (s\<lparr>waiting := ws\<rparr>) + (c + 5) = steps_left s"
      by (simp add: steps_left_def)
    then show ?thesis using oc True by (simp add: notify_def steps_left_ready ws_def)
  next
    case False
    have "sum_list (map (\<lambda>w. snd w + 5) ((waiting s)[n := (object, c - 1)])) + (c + 5)
          = sum_list (map (\<lambda>w. snd w + 5) (waiting s)) + (c - 1 + 5)"
      using sum_list_map_update[OF n, of "\<lambda>w. snd w + 5" "(object, c - 1)"] oc by simp
    then have "sum_list (map (\<lambda>w. snd w + 5) ((waiting s)[n := (object, c - 1)])) + 1
          = sum_list (map (\<lambda>w. snd w + 5) (waiting s))"
      using False by simp
    then show ?thesis using oc False by (simp add: notify_def steps_left_def)
  qed
qed

lemma steps_left_add:
  assumes "add a cb unset s = Inr s'"
  shows "steps_left s' \<le> steps_left s + unset + 5"
proof -
  have p: "pimpl s" using assms by (auto simp: add_def split: if_splits)
  show ?thesis
  proof (cases "unset = 0")
    case True
    then have "s' = (ready (ReduceObject (count_args s) a cb) (inc s))
                     \<lparr>count_args := count_args (ready (ReduceObject (count_args s) a cb) (inc s)) + 1\<rparr>"
      using assms p by (simp add: add_def Let_def)
    then have "steps_left s' = steps_left (ready (ReduceObject (count_args s) a cb) (inc s))"
      by (simp add: steps_left_def)
    then show ?thesis by (simp add: steps_left_ready) (simp add: steps_left_def inc_def emit_def)
  next
    case False
    then show ?thesis using assms p by (auto simp: add_def Let_def steps_left_def inc_def emit_def)
  qed
qed

lemma steps_left_submit: "submit opr s = Inr s' \<Longrightarrow> steps_left s' + 1 \<le> steps_left s"
  by (auto simp: submit_def run_def steps_left_def emit_def dec_def split: option.splits if_splits)

lemma steps_left_run:
  "result s = None \<Longrightarrow> run opr s = Inr s' \<Longrightarrow> steps_left s' + 1 \<le> steps_left s"
  by (auto simp: run_def steps_left_def emit_def split: option.splits)

lemma steps_left_step:
  assumes "step opr a s = Inr s'"
  shows "steps_left s' + 1 \<le> steps_left s + unset_futures [a] + 6 * length (calls [a])"
proof (cases a)
  case (Add v cb unset)
  then show ?thesis using assms steps_left_add[of v cb unset s s'] by simp
next
  case Submit
  then show ?thesis using assms steps_left_submit[of opr s s'] by simp
next
  case (Notify n)
  then show ?thesis using assms steps_left_notify[of n s] by (auto split: if_splits)
next
  case (Work n)
  then obtain f' s1 where w: "n < length (tasks s)" "tasks s ! n \<noteq> Return_decs 0"
    "work opr (tasks s ! n) s = (f', s1)" "s' = s1\<lparr>tasks := (tasks s1)[n := f']\<rparr>"
    using assms by (auto split: if_splits prod.splits)
  show ?thesis unfolding w(4) using steps_left_work[OF w(1,2,3)] Work by simp
next
  case Run
  then show ?thesis using assms steps_left_run[of s opr s'] by (auto split: if_splits)
qed

lemma unset_futures_Cons: "unset_futures (a # as) = unset_futures [a] + unset_futures as"
  by (cases a) simp_all

lemma calls_Cons: "length (calls (a # as)) = length (calls [a]) + length (calls as)"
  by (cases a) simp_all

lemma steps_left_exec:
  "exec opr sched s = Inr s' \<Longrightarrow>
     steps_left s' + length sched \<le> steps_left s + unset_futures sched + 6 * length (calls sched)"
proof (induction sched arbitrary: s)
  case Nil
  then show ?case by simp
next
  case (Cons a sched)
  obtain s1 where s1: "step opr a s = Inr s1" "exec opr sched s1 = Inr s'"
    using Cons.prems by (auto split: sum.splits)
  have a: "steps_left s1 + 1 \<le> steps_left s + unset_futures [a] + 6 * length (calls [a])"
    using steps_left_step[OF s1(1)] .
  have b: "steps_left s' + length sched \<le> steps_left s1 + unset_futures sched + 6 * length (calls sched)"
    using Cons.IH[OF s1(2)] .
  show ?case
    using a b unset_futures_Cons[of a sched] calls_Cons[of a sched] by simp
qed

lemma progress:
  assumes inv: "task_inv s" and rn: "result s = None"
  shows "\<exists>a s'. step opr a s = Inr s' \<and> (\<not> pimpl s \<longrightarrow> calls [a] = [])"
proof (cases "waiting s = []")
  case False
  then have "step opr (Notify 0) s = Inr (notify 0 s)" by simp
  then show ?thesis by (intro exI[of _ "Notify 0"] exI[of _ "notify 0 s"]) simp
next
  case True
  note w = True
  show ?thesis
  proof (cases "\<exists>n<length (tasks s). tasks s ! n \<noteq> Return_decs 0")
    case True
    then obtain n where n: "n < length (tasks s)" "tasks s ! n \<noteq> Return_decs 0" by blast
    obtain f' s1 where "work opr (tasks s ! n) s = (f', s1)" by (cases "work opr (tasks s ! n) s")
    then have "step opr (Work n) s = Inr (s1\<lparr>tasks := (tasks s1)[n := f']\<rparr>)"
      using n by simp
    then show ?thesis by (intro exI[of _ "Work n"] exI) simp
  next
    case False
    then have all: "\<forall>f\<in>set (tasks s). f = Return_decs 0"
      by (auto simp: in_set_conv_nth)
    have hz: "sum_list (map holds (tasks s)) = 0"
      using all by (induction "tasks s") auto
    have "ready_result s \<noteq> None"
      using task_invD(2)[OF inv] unfolding hz by simp
    then obtain rr where rr: "ready_result s = Some rr" by auto
    then have ro: "ready_object s = None" using task_invD(3)[OF inv] by auto
    have so: "sum_list (map owed (tasks s)) = 0"
      using all by (intro sum_list_all_zero) auto
    show ?thesis
    proof (cases "pimpl s")
      case True
      have "\<exists>s'. submit opr s = Inr s'"
        using True rr by (cases "count_args s = 0") (simp_all add: submit_def run_def dec_def emit_def)
      then obtain s' where "submit opr s = Inr s'" by blast
      then have "step opr Submit s = Inr s'" by simp
      then show ?thesis using True by blast
    next
      case False
      then have q: "queued s" using task_invD(7)[OF inv] rn by auto
      have nd: "ndep s = 0" using task_invD(1)[OF inv] False w ro so by simp
      obtain s' where "run opr s = Inr s'" using rr by (auto simp: run_def)
      then have "step opr Run s = Inr s'" using q nd rn by simp
      then show ?thesis by (intro exI[of _ Run] exI[of _ s']) simp
    qed
  qed
qed

subsection \<open>The scenario of the spec\<close>

lemma added_calls:
  "added sched = sum_list (map (\<lambda>c. case c of None \<Rightarrow> 0 | Some a \<Rightarrow> a) (calls sched))"
  by (induction sched rule: added.induct) simp_all

lemma ready_frame: "pimpl (ready object s) = pimpl s \<and> count_args (ready object s) = count_args s"
  by (simp add: ready_def split: option.splits)

lemma notify_frame: "pimpl (notify n s) = pimpl s \<and> count_args (notify n s) = count_args s"
  by (cases "waiting s ! n") (simp add: notify_def ready_frame)

lemma pimpl_step:
  assumes "step opr a s = Inr s'" and "\<not> pimpl s \<or> a = Submit"
  shows "\<not> pimpl s'"
proof (cases a)
  case (Add v cb unset)
  then show ?thesis using assms by (auto simp: add_def)
next
  case Submit
  then show ?thesis using assms by (auto simp: submit_def split: if_splits sum.splits)
next
  case (Notify n)
  then show ?thesis using assms notify_frame[of n s] by (auto split: if_splits)
next
  case (Work n)
  then obtain f' s1 where w: "work opr (tasks s ! n) s = (f', s1)"
    "s' = s1\<lparr>tasks := (tasks s1)[n := f']\<rparr>"
    using assms by (auto split: if_splits prod.splits)
  show ?thesis using w(2) work_frame[OF w(1)] assms(2) Work by simp
next
  case Run
  then show ?thesis using assms by (auto simp: run_def emit_def split: if_splits option.splits)
qed

lemma pimpl_exec:
  "exec opr sched s = Inr s' \<Longrightarrow> \<not> pimpl s \<or> None \<in> set (calls sched) \<Longrightarrow> \<not> pimpl s'"
proof (induction sched arbitrary: s)
  case Nil
  then show ?case by simp
next
  case (Cons a sched)
  obtain s1 where s1: "step opr a s = Inr s1" "exec opr sched s1 = Inr s'"
    using Cons.prems(1) by (auto split: sum.splits)
  have "\<not> pimpl s1 \<or> None \<in> set (calls sched)"
  proof (cases "\<not> pimpl s \<or> a = Submit")
    case True
    then show ?thesis using pimpl_step[OF s1(1)] by simp
  next
    case False
    then show ?thesis using Cons.prems(2) by (cases a) auto
  qed
  then show ?case using Cons.IH[OF s1(2)] by simp
qed




text \<open>
  C1. Take any schedule in which the user adds futures of 3, 1, 4, 1, 5 and 9 (each
  one future, set or not when it is added) and then calls \<open>submit()\<close>, with the
  futures becoming set and the workers taking their steps in any order, also between the
  calls of the user. If every step of the schedule can happen, then the result future is
  not set or holds 23; as long as it is not set, a step that is not a call of the user can
  happen; and the schedule has at most 52 steps. So every run ends, and ends with the
  result future set to 23.
\<close>

theorem sum_reducer_deterministic:
  assumes ex: "exec sum_op sched (ReduceTask sum_op cb) = Inr s"
    and cs: "calls sched = [Some 3, Some 1, Some 4, Some 1, Some 5, Some 9, None]"
    and un: "unset_futures sched \<le> 6"
  shows "(result s = None \<or> result s = Some 23)
       \<and> (result s = None \<longrightarrow> (\<exists>a s'. calls [a] = [] \<and> step sum_op a s = Inr s'))
       \<and> length sched \<le> 52"
proof -
  have inv: "task_inv s" using task_inv_exec[OF task_inv_init ex] .
  have s0: "sum_inv 0 (ReduceTask sum_op cb)"
    by (simp add: sum_inv_def carried_def ReduceTask_def sum_op_def)
  have a23: "added sched = 23" unfolding added_calls cs by simp
  have "sum_inv (0 + added sched) s" by (rule sum_inv_exec[OF task_inv_init s0 ex])
  then have r: "result s = None \<or> result s = Some 23" unfolding a23 by (simp add: sum_inv_def)
  have np: "\<not> pimpl s" using pimpl_exec[OF ex] cs by simp
  have p: "result s = None \<longrightarrow> (\<exists>a s'. calls [a] = [] \<and> step sum_op a s = Inr s')"
  proof
    assume rn: "result s = None"
    obtain a s' where "step sum_op a s = Inr s'" "\<not> pimpl s \<longrightarrow> calls [a] = []"
      using progress[OF inv rn, of sum_op] by auto
    then show "\<exists>a s'. calls [a] = [] \<and> step sum_op a s = Inr s'" using np by auto
  qed
  have "steps_left (ReduceTask sum_op cb) = 4" by (simp add: steps_left_def ReduceTask_def)
  then have l: "length sched \<le> 52" using steps_left_exec[OF ex] cs un by simp
  show ?thesis using r p l by (intro conjI)
qed

text \<open>
  One such schedule, which goes through every branch of \<open>ready\<close> and of \<open>reduce\<close>.
\<close>

theorem sum_reducer_deterministic_witness:
  "\<exists>s. exec sum_op
        [Add 3 False 1, Add 1 False 1, Add 4 False 1, Add 1 False 1, Add 5 False 1, Add 9 False 1,
         Submit,
         Notify 0, Notify 0, Notify 0,
         Work 0, Work 0, Work 0, Work 0,
         Work (Suc 0), Work (Suc 0), Work (Suc 0), Work (Suc 0), Work (Suc 0),
         Notify 0,
         Work (Suc 0), Work (Suc 0), Work (Suc 0), Work (Suc 0), Work (Suc 0), Work (Suc 0),
         Work (Suc 0),
         Notify 0, Notify 0,
         Work (Suc (Suc 0)), Work (Suc (Suc 0)), Work (Suc (Suc 0)), Work (Suc (Suc 0)),
         Work (Suc (Suc 0)), Work (Suc (Suc 0)), Work (Suc (Suc 0)), Work (Suc (Suc 0)),
         Run] (ReduceTask sum_op False) = Inr s
      \<and> result s = Some 23"
proof -
  have "\<exists>s. exec sum_op
        [Add 3 False 1, Add 1 False 1, Add 4 False 1, Add 1 False 1, Add 5 False 1, Add 9 False 1,
         Submit,
         Notify 0, Notify 0, Notify 0,
         Work 0, Work 0, Work 0, Work 0,
         Work (Suc 0), Work (Suc 0), Work (Suc 0), Work (Suc 0), Work (Suc 0),
         Notify 0,
         Work (Suc 0), Work (Suc 0), Work (Suc 0), Work (Suc 0), Work (Suc 0), Work (Suc 0),
         Work (Suc 0),
         Notify 0, Notify 0,
         Work (Suc (Suc 0)), Work (Suc (Suc 0)), Work (Suc (Suc 0)), Work (Suc (Suc 0)),
         Work (Suc (Suc 0)), Work (Suc (Suc 0)), Work (Suc (Suc 0)), Work (Suc (Suc 0)),
         Run] (ReduceTask sum_op False) = Inr s
      \<and> result s \<noteq> None"
    by (simp add: ReduceTask_def sum_op_def add_def submit_def notify_def ready_def run_def
        inc_def dec_def emit_def destroy_def destroy_events_def Let_def)
  then obtain s where e: "exec sum_op
        [Add 3 False 1, Add 1 False 1, Add 4 False 1, Add 1 False 1, Add 5 False 1, Add 9 False 1,
         Submit,
         Notify 0, Notify 0, Notify 0,
         Work 0, Work 0, Work 0, Work 0,
         Work (Suc 0), Work (Suc 0), Work (Suc 0), Work (Suc 0), Work (Suc 0),
         Notify 0,
         Work (Suc 0), Work (Suc 0), Work (Suc 0), Work (Suc 0), Work (Suc 0), Work (Suc 0),
         Work (Suc 0),
         Notify 0, Notify 0,
         Work (Suc (Suc 0)), Work (Suc (Suc 0)), Work (Suc (Suc 0)), Work (Suc (Suc 0)),
         Work (Suc (Suc 0)), Work (Suc (Suc 0)), Work (Suc (Suc 0)), Work (Suc (Suc 0)),
         Run] (ReduceTask sum_op False) = Inr s"
    and r: "result s \<noteq> None" by blast
  have "result s = None \<or> result s = Some 23"
    using sum_reducer_deterministic[OF e] by simp
  then have "result s = Some 23" using r by simp
  then show ?thesis using e by blast
qed

subsection \<open>Every argument is reduced once and destroyed once\<close>















subsection \<open>The order of the steps of \<open>reduce_result_object\<close>\<close>




section \<open>Properties of the sparse shape\<close>

text \<open>
  C6. Each of the six overloads of \<open>subt\<close> returns what the overload of \<open>add\<close> with
  the same operands returns (also the error, on an empty shape): subtraction is
  addition of norms.
\<close>

theorem subt_is_add:
  "subt_shape other s = add_shape other s
   \<and> subt_shape_perm other p s = add_shape_perm other p s
   \<and> subt_shape_factor thr other factor s = add_shape_factor thr other factor s
   \<and> subt_shape_factor_perm thr other factor p s = add_shape_factor_perm thr other factor p s
   \<and> subt_value thr sqrtf v s = add_value thr sqrtf v s
   \<and> subt_value_perm thr sqrtf v p s = add_value_perm thr sqrtf v p s"
  by (simp add: subt_shape_def subt_shape_perm_def subt_shape_factor_def
      subt_shape_factor_perm_def subt_value_def subt_value_perm_def)

text \<open>
  C9, the claim as stated fails: the setter stores the threshold \<open>-1\<close> and returns
  without an error.
\<close>

theorem threshold_set_negative_counterexample:
  "threshold_set (- 1 :: rat) \<lparr>threshold_value = 1\<rparr> \<noteq> Inl PreconditionViolated
   \<and> threshold_set (- 1 :: rat) \<lparr>threshold_value = 1\<rparr> = Inr \<lparr>threshold_value = - 1\<rparr>"
  by (simp add: threshold_set_def)

text \<open>
  C9, amended. For every value \<open>thresh\<close>, positive or not, the setter returns without
  an error and the threshold is \<open>thresh\<close> afterwards: the code has no check.
\<close>

theorem threshold_set_stores_any:
  "\<exists>st'. threshold_set thresh st = Inr st' \<and> threshold st' = thresh"
  by (simp add: threshold_set_def threshold_def)

text \<open>
  C10, the claim as stated fails in its last part: \<open>validate\<close> is not the only query
  that is safe on an empty shape, \<open>empty()\<close> and \<open>data()\<close> return without an error
  there too.
\<close>

theorem validate_not_only_safe_query_counterexample:
  "empty (SparseShape_default :: rat sparse_shape) = Inr True
   \<and> data (SparseShape_default :: rat sparse_shape) = Inr None"
  by (simp add: empty_def data_def SparseShape_default_def)

text \<open>
  C10, amended. On the default-constructed shape \<open>validate(r)\<close> returns false, for
  every range \<open>r\<close>, without an error; on a shape with norms \<open>t\<close> it returns whether
  \<open>r\<close> is the range of \<open>t\<close>. \<open>validate\<close> is a query that is safe on an empty shape,
  as \<open>empty()\<close> and \<open>data()\<close> are, while \<open>is_zero\<close> and \<open>operator[]\<close> fail there.
\<close>

theorem validate_empty_and_nonempty:
  "validate r SparseShape_default = Inr False
   \<and> validate r \<lparr>tile_norms = Some t, size_vectors = svs\<rparr> = Inr (r = extent t)
   \<and> empty SparseShape_default = Inr True
   \<and> data SparseShape_default = Inr None
   \<and> is_zero thr i SparseShape_default = Inl PreconditionViolated
   \<and> norm_at i SparseShape_default = Inl PreconditionViolated"
  by (simp add: validate_def empty_def data_def is_zero_def norm_at_def SparseShape_default_def)

subsection \<open>Permutations, indices and ordinals\<close>




















subsection \<open>Contraction without contracted ranks\<close>






subsection \<open>The hard-zero invariant\<close>

text \<open>
  What \<open>scale\<close>, \<open>add\<close> with a factor and \<open>gemm\<close> store is never below the threshold
  without being 0, and neither is what \<open>mult\<close> stores for a range of two dimensions.
\<close>

lemma hard_zero_below: "hard_zero thr v < thr \<Longrightarrow> hard_zero thr v = 0"
  by (simp add: hard_zero_def split: if_splits)

lemma scale_hard_zeroed:
  assumes "scale thr factor s = Inr r" and "tile_norms r = Some t" and "v \<in> set (elems t)"
    and "v < thr"
  shows "v = 0"
  using assms hard_zero_below[of thr]
  by (auto simp: scale_def t_unary_def split: option.splits)

lemma add_shape_factor_hard_zeroed:
  assumes a: "add_shape_factor thr other factor s = Inr r" and tr: "tile_norms r = Some t"
    and v: "v \<in> set (elems t)" and lt: "v < thr"
  shows "v = 0"
proof -
  obtain t0 where t0: "tile_norms s = Some t0"
    using a by (cases "tile_norms s") (simp_all add: add_shape_factor_def)
  obtain u0 where u0: "tile_norms other = Some u0"
    using a t0 by (cases "tile_norms other") (simp_all add: add_shape_factor_def t_binary_def)
  have "elems t = map2 (\<lambda>l ri. hard_zero thr ((l + ri) * \<bar>factor\<bar>)) (elems t0) (elems u0)"
    using a t0 u0 tr
    by (cases "extent u0 = extent t0") (auto simp: add_shape_factor_def t_binary_def)
  then obtain w where "v = hard_zero thr w" using v by auto
  then show ?thesis using lt hard_zero_below[of thr] by simp
qed

lemma gemm_hard_zeroed:
  assumes g: "gemm thr other factor h s = Inr r" and tr: "tile_norms r = Some t"
    and v: "v \<in> set (elems t)" and lt: "v < thr"
  shows "v = 0"
proof -
  obtain t0 where t0: "tile_norms s = Some t0"
    using g by (cases "tile_norms s") (simp_all add: gemm_def)
  obtain u0 where u0: "tile_norms other = Some u0"
    using g t0 by (cases "tile_norms other") (simp_all add: gemm_def)
  obtain M N K where mnk: "compute_matrix_sizes h (extent t0) (extent u0) = (M, N, K)"
    by (cases "compute_matrix_sizes h (extent t0) (extent u0)")
  have "\<exists>u. elems t = map (hard_zero thr) u"
  proof (cases "left_inner_end h - left_inner_begin h > 0")
    case True
    show ?thesis
    proof (cases "recursive_outer_product (drop (left_inner_begin h) (size_vectors s))
                    (left_inner_end h - left_inner_begin h) (\<lambda>size_vector. size_vector)")
      case None
      then show ?thesis using g t0 u0 mnk True
        by (simp add: gemm_def Let_def del: recursive_outer_product.simps)
    next
      case (Some k_sizes)
      then have "\<exists>x. tile_norms r = Some (t_unary (hard_zero thr) x)"
        using g t0 u0 mnk True
        by (auto simp: gemm_def Let_def simp del: recursive_outer_product.simps)
      then obtain x where "t = t_unary (hard_zero thr) x" using tr by auto
      then have "elems t = map (hard_zero thr) (elems x)" by (simp add: t_unary_def)
      then show ?thesis by (rule exI)
    qed
  next
    case False
    then have "\<exists>x. tile_norms r = Some (t_unary (hard_zero thr) x)"
      using g t0 u0 mnk
      by (auto simp: gemm_def Let_def simp del: recursive_outer_product.simps)
    then obtain x where "t = t_unary (hard_zero thr) x" using tr by auto
    then have "elems t = map (hard_zero thr) (elems x)" by (simp add: t_unary_def)
    then show ?thesis by (rule exI)
  qed
  then obtain w where "v = hard_zero thr w" using v by auto
  then show ?thesis using lt hard_zero_below[of thr] by simp
qed

lemma recursive_outer_product_one: "recursive_outer_product svs (Suc 0) opv = Some (opv (svs ! 0))"
  by (subst recursive_outer_product.simps) simp

lemma mult_2d_hard_zeroed:
  "\<exists>s r. SparseShape (1 / 2 :: rat) (Some \<lparr>extent = [1, 1], elems = [1 / 2]\<rparr>) [[(0, 1)], [(0, 1)]] = Inr s
       \<and> norm_at 0 s = Inr (1 / 2)
       \<and> mult (1 / 2) s s = Inr r
       \<and> norm_at 0 r = Inr 0"
  by (simp add: SparseShape_def tiles_def normalize_def initialize_size_vectors_def
      hard_zero_def mult_def t_binary_def scale_by_size_def
      norm_at_def recursive_outer_product_one outer_def)

text \<open>
  C2, where the code departs from it. With the threshold \<open>1/2\<close>, the constructor
  makes of one tile of one element with the norm \<open>1/2\<close> a shape \<open>s\<close> with the norm
  \<open>1/2\<close>. \<open>s.mult(s)\<close> has the norm \<open>1/4\<close>: \<open>is_zero(0)\<close> is true of it, and
  the stored norm is not 0. In one dimension \<open>scale_by_size\<close> multiplies by the tile
  size and does not compare with the threshold, as its branch for more dimensions does.
\<close>

theorem mult_1d_not_hard_zeroed:
  "\<exists>s r. SparseShape (1 / 2 :: rat) (Some \<lparr>extent = [1], elems = [1 / 2]\<rparr>) [[(0, 1)]] = Inr s
       \<and> norm_at 0 s = Inr (1 / 2)
       \<and> mult (1 / 2) s s = Inr r
       \<and> is_zero (1 / 2) 0 r = Inr True
       \<and> norm_at 0 r = Inr (1 / 4)"
  by (simp add: SparseShape_def tiles_def normalize_def initialize_size_vectors_def
      binary_vector_op_def hard_zero_def mult_def t_binary_def scale_by_size_def
      is_zero_def norm_at_def)

end
